theory Spec2Isabelle
  imports Complex_Main "HOL-Library.Word"
begin

unbundle bit_operations_syntax

section \<open>Strings\<close>

text \<open>
  A JavaScript string is a sequence of code units. The model uses \<^typ>\<open>string\<close>, whose
  characters are the code units below 256 (ASCII and Latin-1); every character that
  the code of \<^verbatim>\<open>transform.ts\<close> inspects (backtick, backslash, newline, comma, brackets,
  the letters of its literals) is among them.
\<close>

definition backtick :: char where
  "backtick = CHR 0x60" \<comment> \<open>the backtick\<close>

definition backslash :: char where
  "backslash = CHR 0x5C" \<comment> \<open>the backslash\<close>

definition newline :: char where
  "newline = CHR 0x0A" \<comment> \<open>the line feed\<close>

text \<open>\<^verbatim>\<open>String.prototype.trim\<close>: white space and line terminators of ECMAScript, as far as
  they lie below 256 (TAB, LF, VT, FF, CR, SP, NBSP).\<close>

definition isWhiteSpace :: "char \<Rightarrow> bool" where
  "isWhiteSpace c = (of_char c \<in> {9, 10, 11, 12, 13, 32, 160 :: nat})"

definition trim :: "string \<Rightarrow> string" where
  "trim s = rev (dropWhile isWhiteSpace (rev (dropWhile isWhiteSpace s)))"

text \<open>\<^verbatim>\<open>Array.prototype.join\<close> on strings.\<close>

fun join :: "string \<Rightarrow> string list \<Rightarrow> string" where
  "join sep [] = []"
| "join sep [x] = x"
| "join sep (x # y # ys) = x @ sep @ join sep (y # ys)"

text \<open>\<^verbatim>\<open>String.prototype.includes\<close>: the pattern occurs at some index, scanned from the left.\<close>

definition startsWith :: "string \<Rightarrow> string \<Rightarrow> bool" where
  "startsWith p s = (take (length p) s = p)"

fun includesStr :: "string \<Rightarrow> string \<Rightarrow> bool" where
  "includesStr p [] = (p = [])"
| "includesStr p (c # cs) = (startsWith p (c # cs) \<or> includesStr p cs)"

text \<open>\<^verbatim>\<open>String.prototype.toLowerCase\<close> on code units below 256: the ASCII capitals and the
  Latin-1 capitals (all of \<open>0xC0..0xDE\<close> but the multiplication sign) move up by 32.\<close>

definition toLowerChar :: "char \<Rightarrow> char" where
  "toLowerChar c =
     (let n = (of_char c :: nat) in
      if (65 \<le> n \<and> n \<le> 90) \<or> (192 \<le> n \<and> n \<le> 222 \<and> n \<noteq> 215)
      then char_of (n + 32) else c)"

definition toLowerCase :: "string \<Rightarrow> string" where
  "toLowerCase s = map toLowerChar s"

section \<open>Utils: CRC-32 as lower-case hexadecimal\<close>

text \<open>
  \<^verbatim>\<open>Buffer.from(text, "utf-8")\<close>: a code unit below 128 is one byte, one from 128 to 255
  is two bytes.
\<close>

definition utf8_char :: "char \<Rightarrow> 8 word list" where
  "utf8_char c =
     (let n = (of_char c :: nat) in
      if n < 128 then [of_nat n]
      else [of_nat (192 + n div 64), of_nat (128 + n mod 64)])"

definition utf8 :: "string \<Rightarrow> 8 word list" where
  "utf8 s = concat (map utf8_char s)"

text \<open>
  \<^verbatim>\<open>zlib.crc32\<close> is the CRC-32 of ISO 3309 and zlib: reflected polynomial
  \<open>0xEDB88320\<close>, register preset to all ones, result complemented.
\<close>

definition crc_shift :: "32 word \<Rightarrow> 32 word" where
  "crc_shift c = (if bit c 0 then drop_bit 1 c XOR 0xEDB88320 else drop_bit 1 c)"

definition crc_byte :: "32 word \<Rightarrow> 8 word \<Rightarrow> 32 word" where
  "crc_byte c b =
     crc_shift (crc_shift (crc_shift (crc_shift
       (crc_shift (crc_shift (crc_shift (crc_shift (c XOR ucast b))))))))"

definition crc32 :: "8 word list \<Rightarrow> 32 word" where
  "crc32 bytes = foldl crc_byte 0xFFFFFFFF bytes XOR 0xFFFFFFFF"

text \<open>\<^verbatim>\<open>Number.prototype.toString(16)\<close> on a non-negative integer.\<close>

definition hexDigit :: "nat \<Rightarrow> char" where
  "hexDigit d = ''0123456789abcdef'' ! d" \<comment> \<open>only used with \<open>d < 16\<close>\<close>

fun toString16 :: "nat \<Rightarrow> string" where
  "toString16 n = (if n < 16 then [hexDigit n] else toString16 (n div 16) @ [hexDigit (n mod 16)])"

declare toString16.simps [simp del]

definition padStart :: "nat \<Rightarrow> char \<Rightarrow> string \<Rightarrow> string" where
  "padStart n c s = replicate (n - length s) c @ s"

definition calculateCrc32 :: "string \<Rightarrow> string" where
  "calculateCrc32 text = padStart 8 (CHR ''0'') (toString16 (unat (crc32 (utf8 text))))"

section \<open>Thinking block codec\<close>

subsection \<open>Encoding\<close>

text \<open>\<^verbatim>\<open>thinking.replace(/`/g, "\\`")\<close>: a backslash goes in front of every backtick.\<close>

fun escapeBackticks :: "string \<Rightarrow> string" where
  "escapeBackticks [] = []"
| "escapeBackticks (c # cs) = (if c = backtick then backslash # backtick # escapeBackticks cs else c # escapeBackticks cs)"

text \<open>\<^verbatim>\<open>escapedContent.replace(/\\`/g, "`")\<close>: scanning from the left, every backslash that
  a backtick follows is dropped.\<close>

fun unescapeBackticks :: "string \<Rightarrow> string" where
  "unescapeBackticks (a # b # s) =
     (if a = backslash \<and> b = backtick then backtick # unescapeBackticks s else a # unescapeBackticks (b # s))"
| "unescapeBackticks s = s"

definition fence :: string where
  "fence = [backtick, backtick, backtick]"

definition header :: string where
  "header = fence @ ''thinking'' @ [newline] @ ''[Thinking]'' @ [newline]"

definition closing :: string where
  "closing = newline # fence" \<comment> \<open>a line feed and the closing fence\<close>

text \<open>The signature is optional; \<^verbatim>\<open>if (signature)\<close> also takes the empty string as absent.\<close>

definition encodeThinkingBlock :: "string \<Rightarrow> string option \<Rightarrow> string" where
  "encodeThinkingBlock thinking signature =
     (let escapedThinking = escapeBackticks thinking;
          sigTag = (case signature of
                      None \<Rightarrow> []
                    | Some sg \<Rightarrow>
                        if sg = [] then []
                        else newline # ''[SIG='' @ sg @ '',CRC='' @ calculateCrc32 escapedThinking @ '']'')
      in header @ escapedThinking @ sigTag @ closing @ [newline, newline])"

subsection \<open>The regular expressions, as backtracking matchers\<close>

text \<open>
  A matcher takes the rest of the input and a continuation for what follows it in the
  pattern; \<open>None\<close> makes the matcher try its next alternative, as the backtracking of the
  regular expression engine does.
\<close>

text \<open>A literal piece of the pattern.\<close>

definition lit :: "string \<Rightarrow> string \<Rightarrow> (string \<Rightarrow> 'a option) \<Rightarrow> 'a option" where
  "lit p s k = (if startsWith p s then k (drop (length p) s) else None)"

text \<open>\<^verbatim>\<open>[\s\S]*?\<close>: lazy, so the shortest content is tried first and grows by one code unit
  whenever the rest of the pattern fails.\<close>

fun lazyAny :: "string \<Rightarrow> string \<Rightarrow> (string \<Rightarrow> string \<Rightarrow> 'a option) \<Rightarrow> 'a option" where
  "lazyAny acc [] k = k acc []"
| "lazyAny acc (c # cs) k =
     (case k acc (c # cs) of Some r \<Rightarrow> Some r | None \<Rightarrow> lazyAny (acc @ [c]) cs k)"

text \<open>A greedy character class with \<open>*\<close>: the longest run is tried first and shrinks by one
  code unit whenever the rest of the pattern fails; \<open>+\<close> asks for one member first.\<close>

fun greedyStar :: "(char \<Rightarrow> bool) \<Rightarrow> string \<Rightarrow> string \<Rightarrow> (string \<Rightarrow> string \<Rightarrow> 'a option) \<Rightarrow> 'a option" where
  "greedyStar P acc [] k = k acc []"
| "greedyStar P acc (c # cs) k =
     (if P c then (case greedyStar P (acc @ [c]) cs k of Some r \<Rightarrow> Some r | None \<Rightarrow> k acc (c # cs))
      else k acc (c # cs))"

fun greedyPlus :: "(char \<Rightarrow> bool) \<Rightarrow> string \<Rightarrow> (string \<Rightarrow> string \<Rightarrow> 'a option) \<Rightarrow> 'a option" where
  "greedyPlus P [] k = None"
| "greedyPlus P (c # cs) k = (if P c then greedyStar P [c] cs k else None)"

text \<open>\<^verbatim>\<open>[^,\]]\<close> and \<^verbatim>\<open>[^\]]\<close>.\<close>

definition sigChar :: "char \<Rightarrow> bool" where
  "sigChar c = (c \<noteq> CHR '','' \<and> c \<noteq> CHR '']'')"

definition crcChar :: "char \<Rightarrow> bool" where
  "crcChar c = (c \<noteq> CHR '']'')"

text \<open>\<^verbatim>\<open>\n\[SIG=([^,\]]+),CRC=([^\]]+)\]\<close>: the trailer, handing both captures on.\<close>

definition trailer :: "string \<Rightarrow> (string \<Rightarrow> string \<Rightarrow> string \<Rightarrow> 'a option) \<Rightarrow> 'a option" where
  "trailer s k =
     lit (newline # ''[SIG='') s (\<lambda>s1.
       greedyPlus sigChar s1 (\<lambda>sg s2.
         lit '',CRC='' s2 (\<lambda>s3.
           greedyPlus crcChar s3 (\<lambda>crc s4.
             lit '']'' s4 (\<lambda>s5. k sg crc s5)))))"

text \<open>
  The pattern of \<^verbatim>\<open>decodeThinkingBlock\<close>, anchored at both ends:
  \<^verbatim>\<open>/^```thinking\n\[Thinking\]\n([\s\S]*?)(?:\n\[SIG=([^,\]]+),CRC=([^\]]+)\])?\n```$/\<close>.
  The optional group is greedy: it is tried first, and skipped when the pattern fails
  with it. The result holds the captures 1, 2 and 3.
\<close>

definition decodeRegex :: "string \<Rightarrow> (string \<times> string option \<times> string option) option" where
  "decodeRegex text =
     lit header text (\<lambda>r.
       lazyAny [] r (\<lambda>c rest.
         case trailer rest (\<lambda>sg crc rest'.
                lit closing rest' (\<lambda>e. if e = [] then Some (c, Some sg, Some crc) else None)) of
           Some m \<Rightarrow> Some m
         | None \<Rightarrow> lit closing rest (\<lambda>e. if e = [] then Some (c, None, None) else None)))"

subsection \<open>Decoding\<close>

definition decodeThinkingBlock :: "string \<Rightarrow> (string \<times> string) option" where
  "decodeThinkingBlock text =
     (case decodeRegex text of
        None \<Rightarrow> None
      | Some (m1, m2, m3) \<Rightarrow>
          (let escapedContent = trim m1 in
           case (m2, m3) of
             (Some signature, Some crc) \<Rightarrow>
               if escapedContent = [] \<or> signature = [] \<or> crc = [] then None
               else if calculateCrc32 escapedContent \<noteq> crc then None
               else Some (unescapeBackticks escapedContent, signature)
           | _ \<Rightarrow> None))"


subsection \<open>Content blocks of the internal format\<close>

text \<open>A JSON value, for tool inputs and schemas (\<^verbatim>\<open>Record<string, unknown>\<close>).\<close>

datatype json =
    JNull
  | JBool bool
  | JNum real
  | JStr string
  | JArr "json list"
  | JObj "(string \<times> json) list"

text \<open>\<^verbatim>\<open>InternalContentBlock\<close> of \<^verbatim>\<open>types.ts\<close>: a union tagged by \<^verbatim>\<open>type\<close>.\<close>

datatype InternalContentBlock =
    TextBlock string                        \<comment> \<open>text\<close>
  | ToolUseBlock string string json         \<comment> \<open>id, name, input\<close>
  | ToolResultBlock string string           \<comment> \<open>tool\_use\_id, content\<close>
  | ThinkingBlock string "string option"    \<comment> \<open>thinking, signature?\<close>
  | RedactedThinkingBlock string            \<comment> \<open>data\<close>

subsection \<open>Thinking blocks embedded in text\<close>

text \<open>
  The pattern of \<^verbatim>\<open>parseThinkingFromText\<close>, not anchored, with the flag \<^verbatim>\<open>g\<close>:
  \<^verbatim>\<open>/```thinking\n\[Thinking\]\n[\s\S]*?(?:\n\[SIG=[^,\]]+,CRC=[^\]]+\])?\n```/g\<close>.
  \<open>blockRegexAt\<close> is one attempt at the current index and returns what is left behind
  the match.
\<close>

definition blockRegexAt :: "string \<Rightarrow> string option" where
  "blockRegexAt s =
     lit header s (\<lambda>r.
       lazyAny [] r (\<lambda>c rest.
         case trailer rest (\<lambda>sg crc rest'. lit closing rest' Some) of
           Some e \<Rightarrow> Some e
         | None \<Rightarrow> lit closing rest Some))"

text \<open>
  \<^verbatim>\<open>thinkingBlockRegex.exec(text)\<close> from \<^verbatim>\<open>lastIndex\<close>: the attempt moves right by one
  code unit until it matches. The result is the text skipped since \<^verbatim>\<open>lastIndex\<close>
  (\<^verbatim>\<open>text.slice(lastIndex, match.index)\<close>), the match \<^verbatim>\<open>match[0]\<close> and the text from
  the new \<^verbatim>\<open>lastIndex\<close> on.
\<close>

fun execBlockRegex :: "string \<Rightarrow> string \<Rightarrow> (string \<times> string \<times> string) option" where
  "execBlockRegex skipped [] =
     (case blockRegexAt [] of
        Some rest \<Rightarrow> Some (skipped, [], rest)
      | None \<Rightarrow> None)"
| "execBlockRegex skipped (c # cs) =
     (case blockRegexAt (c # cs) of
        Some rest \<Rightarrow> Some (skipped, take (length (c # cs) - length rest) (c # cs), rest)
      | None \<Rightarrow> execBlockRegex (skipped @ [c]) cs)"


text \<open>Whatever a matcher hands to its continuation is a split of its own input.\<close>

lemma lit_Some: "lit p s k = Some r \<Longrightarrow> \<exists>s'. s = p @ s' \<and> k s' = Some r"
  by (auto simp: lit_def startsWith_def split: if_splits) (metis append_take_drop_id)

lemma lazyAny_Some: "lazyAny acc s k = Some r \<Longrightarrow> \<exists>a s'. acc @ s = a @ s' \<and> k a s' = Some r"
proof (induction s arbitrary: acc)
  case Nil
  then show ?case by auto
next
  case (Cons c cs)
  show ?case
  proof (cases "k acc (c # cs)")
    case None
    with Cons.prems have "lazyAny (acc @ [c]) cs k = Some r" by simp
    from Cons.IH [OF this] show ?thesis by auto
  next
    case (Some x)
    with Cons.prems show ?thesis by auto
  qed
qed

lemma greedyStar_Some:
  "greedyStar P acc s k = Some r \<Longrightarrow> \<exists>a s'. acc @ s = a @ s' \<and> k a s' = Some r"
proof (induction s arbitrary: acc)
  case Nil
  then show ?case by auto
next
  case (Cons c cs)
  show ?case
  proof (cases "P c \<and> greedyStar P (acc @ [c]) cs k \<noteq> None")
    case True
    with Cons.prems have "greedyStar P (acc @ [c]) cs k = Some r"
      by (auto split: option.splits)
    from Cons.IH [OF this] show ?thesis by auto
  next
    case False
    with Cons.prems have "k acc (c # cs) = Some r"
      by (auto split: option.splits if_splits)
    then show ?thesis by auto
  qed
qed

lemma greedyPlus_Some: "greedyPlus P s k = Some r \<Longrightarrow> \<exists>a s'. s = a @ s' \<and> k a s' = Some r"
proof (cases s)
  case Nil
  assume "greedyPlus P s k = Some r"
  with Nil show ?thesis by simp
next
  case (Cons c cs)
  assume "greedyPlus P s k = Some r"
  with Cons have "greedyStar P [c] cs k = Some r" by (simp split: if_splits)
  from greedyStar_Some [OF this] Cons show ?thesis by simp
qed

lemma trailer_Some:
  "trailer s k = Some r \<Longrightarrow> \<exists>sg crc s' u. s = u @ s' \<and> k sg crc s' = Some r"
  unfolding trailer_def
  apply (drule lit_Some, clarify)
  apply (drule greedyPlus_Some, clarify)
  apply (drule lit_Some, clarify)
  apply (drule greedyPlus_Some, clarify)
  apply (drule lit_Some, clarify)
  by (metis append.assoc)

lemma blockRegexAt_Some: "blockRegexAt s = Some rest \<Longrightarrow> \<exists>u. s = header @ u @ closing @ rest"
  unfolding blockRegexAt_def
  apply (drule lit_Some, clarify)
  apply (drule lazyAny_Some, clarify)
  apply (auto split: option.splits dest!: trailer_Some lit_Some)
  done

lemma execBlockRegex_Some:
  "execBlockRegex skipped s = Some (pre, m, rest) \<Longrightarrow>
     skipped @ s = pre @ m @ rest \<and> blockRegexAt (m @ rest) = Some rest"
proof (induction s arbitrary: skipped)
  case Nil
  then show ?case by (auto split: option.splits dest: blockRegexAt_Some)
next
  case (Cons c cs)
  show ?case
  proof (cases "blockRegexAt (c # cs)")
    case None
    with Cons.prems have "execBlockRegex (skipped @ [c]) cs = Some (pre, m, rest)" by simp
    from Cons.IH [OF this] show ?thesis by simp
  next
    case (Some e)
    from blockRegexAt_Some [OF Some] obtain u where u: "c # cs = header @ u @ closing @ e" ..
    have "length (c # cs) - length e = length (header @ u @ closing)"
      by (simp only: u) simp
    then have t: "take (length (c # cs) - length e) (c # cs) = header @ u @ closing"
      by (simp only: u) simp
    from Cons.prems Some have eqs: "pre = skipped" "rest = e"
      "m = take (length (c # cs) - length e) (c # cs)" by auto
    from eqs(3) t have m: "m = header @ u @ closing" by simp
    from m u eqs(2) have "m @ rest = c # cs" by simp
    with Some eqs show ?thesis by simp
  qed
qed

lemma execBlockRegex_shorter:
  "execBlockRegex [] s = Some (pre, m, rest) \<Longrightarrow> length rest < length s"
proof -
  assume a: "execBlockRegex [] s = Some (pre, m, rest)"
  from execBlockRegex_Some [OF a] have s: "s = pre @ m @ rest"
    and "blockRegexAt (m @ rest) = Some rest" by simp_all
  from blockRegexAt_Some [OF this(2)] obtain u where "m @ rest = header @ u @ closing @ rest" ..
  then have "length m = length (header @ u @ closing)"
    by (metis append.assoc append_same_eq)
  then have "0 < length m" by (simp add: header_def)
  with s show ?thesis by simp
qed

text \<open>
  The loop of \<^verbatim>\<open>parseThinkingFromText\<close>: \<open>s\<close> is the text from \<^verbatim>\<open>lastIndex\<close> on. Text in
  front of a match becomes a text block when something is left of it after trimming, and
  the match becomes a thinking block when \<open>decodeThinkingBlock\<close> accepts it. The result
  is the blocks and the text behind the last match.
\<close>

definition textBlockOf :: "string \<Rightarrow> InternalContentBlock list" where
  "textBlockOf t = (if t = [] then [] else [TextBlock t])"

function parseLoop :: "string \<Rightarrow> InternalContentBlock list \<Rightarrow> InternalContentBlock list \<times> string" where
  "parseLoop s blocks =
     (case execBlockRegex [] s of
        None \<Rightarrow> (blocks, s)
      | Some (pre, m, rest) \<Rightarrow>
          parseLoop rest
            (blocks @ textBlockOf (trim pre) @
             (case decodeThinkingBlock m of
                Some (thinking, signature) \<Rightarrow> [ThinkingBlock thinking (Some signature)]
              | None \<Rightarrow> [])))"
  by pat_completeness auto
termination
  by (relation "measure (\<lambda>(s, blocks). length s)") (auto dest: execBlockRegex_shorter)

declare parseLoop.simps [simp del]

definition parseThinkingFromText :: "string \<Rightarrow> InternalContentBlock list" where
  "parseThinkingFromText text =
     (let (blocks, after) = parseLoop text [];
          blocks = blocks @ textBlockOf (trim after)
      in if blocks = [] \<and> trim text \<noteq> [] then [TextBlock (trim text)] else blocks)"


section \<open>Model names\<close>

record MappedModel =
  mapped_model :: "string option"
  enableThinking :: bool

definition modelMap :: "(string \<times> MappedModel) list" where
  "modelMap =
     [(''claude-4.5-opus-high-thinking'',
         \<lparr>mapped_model = Some ''claude-opus-4-5-20251101'', enableThinking = True\<rparr>),
      (''claude-4.5-opus'', \<lparr>mapped_model = Some ''claude-opus-4-5-20251101'', enableThinking = False\<rparr>),
      (''claude-4-opus'', \<lparr>mapped_model = Some ''claude-opus-4-20250514'', enableThinking = False\<rparr>),
      (''claude-4-sonnet'', \<lparr>mapped_model = Some ''claude-sonnet-4-20250514'', enableThinking = False\<rparr>),
      (''claude-3.5-sonnet'', \<lparr>mapped_model = Some ''claude-sonnet-4-20250514'', enableThinking = False\<rparr>),
      (''claude-3-opus'', \<lparr>mapped_model = Some ''claude-3-opus-20240229'', enableThinking = False\<rparr>),
      (''claude-3-sonnet'', \<lparr>mapped_model = Some ''claude-3-sonnet-20240229'', enableThinking = False\<rparr>),
      (''claude-3-haiku'', \<lparr>mapped_model = Some ''claude-3-haiku-20240307'', enableThinking = False\<rparr>)]"

text \<open>
  \<^verbatim>\<open>modelMap\<close> is an object literal, so \<^verbatim>\<open>modelMap[model]\<close> also finds what the object
  inherits from \<^verbatim>\<open>Object.prototype\<close>. Each of these members is a function or an object,
  hence truthy, and \<^verbatim>\<open>mapModelName\<close> returns it as it is; the caller reads \<^verbatim>\<open>model\<close> and
  \<^verbatim>\<open>enableThinking\<close> off it and gets \<^verbatim>\<open>undefined\<close> for both (\<open>None\<close>, and a flag that
  counts as false wherever it is tested).
\<close>

definition objectPrototypeKeys :: "string list" where
  "objectPrototypeKeys =
     [''constructor'', ''hasOwnProperty'', ''isPrototypeOf'', ''propertyIsEnumerable'',
      ''toLocaleString'', ''toString'', ''valueOf'', ''__proto__'',
      ''__defineGetter__'', ''__defineSetter__'', ''__lookupGetter__'', ''__lookupSetter__'']"

definition mapModelName :: "string \<Rightarrow> MappedModel" where
  "mapModelName model =
     (case map_of modelMap model of
        Some entry \<Rightarrow> entry
      | None \<Rightarrow>
          if model \<in> set objectPrototypeKeys
          then \<lparr>mapped_model = None, enableThinking = False\<rparr>
          else \<lparr>mapped_model = Some model,
                enableThinking = includesStr ''thinking'' (toLowerCase model)\<rparr>)"

section \<open>Requests\<close>

text \<open>
  Message content is a string, an array of blocks, or missing (\<^verbatim>\<open>null\<close>, \<^verbatim>\<open>undefined\<close>).
  A block is tagged by \<^verbatim>\<open>type\<close>; \<open>BOther\<close> stands for every tag that is none of
  \<^verbatim>\<open>text\<close>, \<^verbatim>\<open>tool_use\<close>, \<^verbatim>\<open>tool_result\<close> and \<^verbatim>\<open>thinking\<close>.
\<close>

datatype Content =
    CString string
  | CArray "ContentBlock list"
  | CNull
and ContentBlock =
    BText string                       \<comment> \<open>text\<close>
  | BToolUse string string json        \<comment> \<open>id, name, input\<close>
  | BToolResult string Content         \<comment> \<open>tool\_use\_id, content\<close>
  | BThinking string "string option"   \<comment> \<open>thinking, signature?\<close>
  | BOther

datatype Role = RUser | RAssistant | RSystem | RTool

record ToolCall =
  call_id :: string
  call_name :: string              \<comment> \<open>\<^verbatim>\<open>function.name\<close>\<close>
  arguments :: "string option"     \<comment> \<open>\<^verbatim>\<open>function.arguments\<close>\<close>

record Message =
  msg_role :: Role
  msg_content :: Content
  tool_calls :: "ToolCall list option"
  tool_call_id :: "string option"

record SysBlock =
  sb_type :: string
  sb_text :: "string option"

text \<open>The \<^verbatim>\<open>system\<close> field: a string, an array of blocks, or any other JSON value.\<close>

datatype SystemField = SysString string | SysArray "SysBlock list" | SysOther

record ToolFunction =
  fn_name :: string
  fn_description :: "string option"
  fn_parameters :: "json option"

text \<open>A tool definition of either dialect: \<^verbatim>\<open>name\<close>, \<^verbatim>\<open>description\<close> and \<^verbatim>\<open>input_schema\<close>
  at the top level, or a \<^verbatim>\<open>function\<close> member.\<close>

record Tool =
  tool_name :: "string option"
  tool_description :: "string option"
  input_schema :: "json option"
  tool_function :: "ToolFunction option"

text \<open>A field that is \<open>None\<close> is absent from the request (\<^verbatim>\<open>undefined\<close>).\<close>

record Request =
  req_model :: string
  req_messages :: "Message list"
  req_system :: "SystemField option"
  req_tools :: "Tool list option"
  max_tokens :: "real option"
  req_stream :: "bool option"
  req_temperature :: "real option"

subsection \<open>The internal format\<close>

datatype InternalRole = User | Assistant

record InternalMessage =
  role :: InternalRole
  content :: "InternalContentBlock list"

record InternalTool =
  name :: "string option"
  description :: string
  parameters :: json

record InternalRequest =
  messages :: "InternalMessage list"
  tools :: "InternalTool list option"
  model :: "string option"
  maxTokens :: real
  system :: "string option"
  stream :: bool
  temperature :: "real option"
  maxThinkingTokens :: "nat option"

section \<open>Content extraction\<close>

definition textsOf :: "ContentBlock list \<Rightarrow> string list" where
  "textsOf bs = List.map_filter (\<lambda>b. case b of BText t \<Rightarrow> Some t | _ \<Rightarrow> None) bs"

definition extractTextContent :: "Content \<Rightarrow> string" where
  "extractTextContent c =
     (case c of
        CNull \<Rightarrow> []
      | CString s \<Rightarrow> s
      | CArray bs \<Rightarrow> join [newline] (textsOf bs))"

section \<open>Format detection\<close>

fun blocksHaveTool :: "ContentBlock list \<Rightarrow> bool" where
  "blocksHaveTool [] = False"
| "blocksHaveTool (b # bs) =
     (case b of
        BToolUse i n inp \<Rightarrow> True
      | BToolResult i c \<Rightarrow> True
      | _ \<Rightarrow> blocksHaveTool bs)"

fun messagesHaveTool :: "Message list \<Rightarrow> bool" where
  "messagesHaveTool [] = False"
| "messagesHaveTool (msg # msgs) =
     (case msg_content msg of
        CArray bs \<Rightarrow> if blocksHaveTool bs then True else messagesHaveTool msgs
      | _ \<Rightarrow> messagesHaveTool msgs)"

definition isAnthropicFormat :: "Request \<Rightarrow> bool" where
  "isAnthropicFormat request =
     (if req_system request \<noteq> None then True
      else if (case req_tools request of
                 Some (firstTool # rest) \<Rightarrow> input_schema firstTool \<noteq> None
               | _ \<Rightarrow> False) then True
      else messagesHaveTool (req_messages request))"

section \<open>The workaround: dropping assistant messages without thinking\<close>

definition isThinking :: "InternalContentBlock \<Rightarrow> bool" where
  "isThinking b = (case b of ThinkingBlock t sg \<Rightarrow> True | RedactedThinkingBlock d \<Rightarrow> True | _ \<Rightarrow> False)"

definition hasThinking :: "InternalMessage \<Rightarrow> bool" where
  "hasThinking msg = list_ex isThinking (content msg)"

text \<open>\<^verbatim>\<open>removedToolIds\<close> is a \<^verbatim>\<open>Set\<close>: here the list of its members in the order of insertion.\<close>

definition setAdd :: "string \<Rightarrow> string list \<Rightarrow> string list" where
  "setAdd x ids = (if x \<in> set ids then ids else ids @ [x])"

fun addToolUseIds :: "InternalContentBlock list \<Rightarrow> string list \<Rightarrow> string list" where
  "addToolUseIds [] ids = ids"
| "addToolUseIds (b # bs) ids =
     addToolUseIds bs (case b of ToolUseBlock i n inp \<Rightarrow> setAdd i ids | _ \<Rightarrow> ids)"

text \<open>First pass: the kept messages and the set of removed ids after it.\<close>

fun firstPass :: "InternalMessage list \<Rightarrow> string list \<Rightarrow> InternalMessage list \<times> string list" where
  "firstPass [] removedToolIds = ([], removedToolIds)"
| "firstPass (msg # msgs) removedToolIds =
     (if role msg = Assistant \<and> \<not> hasThinking msg
      then firstPass msgs (addToolUseIds (content msg) removedToolIds)
      else (let (kept, ids) = firstPass msgs removedToolIds in (msg # kept, ids)))"

definition orphaned :: "string list \<Rightarrow> InternalContentBlock \<Rightarrow> bool" where
  "orphaned removedToolIds b =
     (case b of ToolResultBlock i c \<Rightarrow> i \<in> set removedToolIds | _ \<Rightarrow> False)"

text \<open>Second pass: \<open>None\<close> is the \<^verbatim>\<open>null\<close> that the last \<^verbatim>\<open>filter\<close> takes out.\<close>

definition secondPassMsg :: "string list \<Rightarrow> InternalMessage \<Rightarrow> InternalMessage option" where
  "secondPassMsg removedToolIds msg =
     (if role msg = User
      then (let filteredContent = filter (\<lambda>b. \<not> orphaned removedToolIds b) (content msg)
            in if filteredContent = [] then None else Some (msg\<lparr>content := filteredContent\<rparr>))
      else Some msg)"

definition secondPass :: "string list \<Rightarrow> InternalMessage list \<Rightarrow> InternalMessage list" where
  "secondPass removedToolIds msgs = List.map_filter (secondPassMsg removedToolIds) msgs"

definition filterMessagesWithoutThinking :: "InternalMessage list \<Rightarrow> bool \<Rightarrow> InternalMessage list" where
  "filterMessagesWithoutThinking msgs enable =
     (if \<not> enable then msgs
      else (let (filtered, removedToolIds) = firstPass msgs []
            in if removedToolIds \<noteq> [] then secondPass removedToolIds filtered else filtered))"


section \<open>Normalisation\<close>

subsection \<open>What both dialects share\<close>

text \<open>A system message is appended to a truthy prompt behind a blank line, and replaces
  an empty or missing one.\<close>

definition addSystem :: "string option \<Rightarrow> string \<Rightarrow> string option" where
  "addSystem systemPrompt textContent =
     (case systemPrompt of
        Some p \<Rightarrow> if p \<noteq> [] then Some (p @ [newline, newline] @ textContent) else Some textContent
      | None \<Rightarrow> Some textContent)"

text \<open>\<^verbatim>\<open>if (content.length > 0) messages.push({ role, content })\<close>.\<close>

definition pushMessage ::
  "InternalRole \<Rightarrow> InternalContentBlock list \<Rightarrow> InternalMessage list \<Rightarrow> InternalMessage list" where
  "pushMessage r c msgs = (if c \<noteq> [] then msgs @ [\<lparr>role = r, content = c\<rparr>] else msgs)"

text \<open>Truthiness of a JSON value, for \<^verbatim>\<open>||\<close>.\<close>

definition truthy :: "json \<Rightarrow> bool" where
  "truthy j =
     (case j of
        JNull \<Rightarrow> False
      | JBool b \<Rightarrow> b
      | JNum n \<Rightarrow> n \<noteq> 0
      | JStr s \<Rightarrow> s \<noteq> []
      | _ \<Rightarrow> True)"

definition emptySchema :: json where
  "emptySchema = JObj [(''type'', JStr ''object''), (''properties'', JObj [])]"

definition orEmptySchema :: "json option \<Rightarrow> json" where
  "orEmptySchema j = (case j of Some v \<Rightarrow> if truthy v then v else emptySchema | None \<Rightarrow> emptySchema)"

definition orEmptyString :: "string option \<Rightarrow> string" where
  "orEmptyString d = (case d of Some t \<Rightarrow> t | None \<Rightarrow> [])"

text \<open>\<^verbatim>\<open>request.max_tokens || 4096\<close>: zero is falsy.\<close>

definition orDefaultTokens :: "real option \<Rightarrow> real" where
  "orDefaultTokens m = (case m of Some n \<Rightarrow> if n = 0 then 4096 else n | None \<Rightarrow> 4096)"

text \<open>The request that both paths return, from the messages, the tools, the system prompt
  and the result of \<open>mapModelName\<close>.\<close>

definition buildRequest ::
  "Request \<Rightarrow> InternalMessage list \<Rightarrow> InternalTool list option \<Rightarrow> string option \<Rightarrow> MappedModel
     \<Rightarrow> InternalRequest" where
  "buildRequest request msgs tls systemPrompt mapped =
     \<lparr>messages = filterMessagesWithoutThinking msgs (enableThinking mapped),
      tools = tls,
      model = mapped_model mapped,
      maxTokens = orDefaultTokens (max_tokens request),
      system = (case systemPrompt of Some p \<Rightarrow> if p \<noteq> [] then Some p else None | None \<Rightarrow> None),
      stream = (case req_stream request of Some b \<Rightarrow> b | None \<Rightarrow> False),
      temperature = req_temperature request,
      maxThinkingTokens = (if enableThinking mapped then Some 10000 else None)\<rparr>"

subsection \<open>Anthropic to internal\<close>

definition systemOfRequest :: "SystemField option \<Rightarrow> string option" where
  "systemOfRequest sys =
     (case sys of
        Some (SysString t) \<Rightarrow> if t \<noteq> [] then Some t else None
      | Some (SysArray blocks) \<Rightarrow>
          Some (join [newline]
                 (List.map_filter (\<lambda>b. if sb_type b = ''text'' then sb_text b else None) blocks))
      | _ \<Rightarrow> None)"

definition userBlock :: "ContentBlock \<Rightarrow> InternalContentBlock list" where
  "userBlock b =
     (case b of
        BText t \<Rightarrow> [TextBlock t]
      | BToolResult i c \<Rightarrow>
          [ToolResultBlock i
             (case c of
                CString t \<Rightarrow> t
              | CArray cs \<Rightarrow> join [newline] (textsOf cs)
              | CNull \<Rightarrow> [])]
      | _ \<Rightarrow> [])"

text \<open>\<^verbatim>\<open>...(block.signature && { signature: block.signature })\<close>: the signature is carried
  over when it is truthy, so an empty string counts as no signature.\<close>

definition signatureIfTruthy :: "string option \<Rightarrow> string option" where
  "signatureIfTruthy sg = (case sg of Some g \<Rightarrow> if g \<noteq> [] then Some g else None | None \<Rightarrow> None)"

definition assistantBlock :: "ContentBlock \<Rightarrow> InternalContentBlock list" where
  "assistantBlock b =
     (case b of
        BText t \<Rightarrow> parseThinkingFromText t
      | BThinking t sg \<Rightarrow> [ThinkingBlock t (signatureIfTruthy sg)]
      | BToolUse i n inp \<Rightarrow> [ToolUseBlock i n inp]
      | _ \<Rightarrow> [])"

definition userContent :: "Content \<Rightarrow> InternalContentBlock list" where
  "userContent c =
     (case c of
        CArray blocks \<Rightarrow> concat (map userBlock blocks)
      | _ \<Rightarrow> (let textContent = extractTextContent c
              in if textContent \<noteq> [] then [TextBlock textContent] else []))"

definition assistantContent :: "Content \<Rightarrow> InternalContentBlock list" where
  "assistantContent c =
     (case c of
        CArray blocks \<Rightarrow> concat (map assistantBlock blocks)
      | _ \<Rightarrow> (let textContent = extractTextContent c
              in if textContent \<noteq> [] then parseThinkingFromText textContent else []))"

text \<open>One turn of the loop over \<^verbatim>\<open>request.messages\<close>; the state is \<^verbatim>\<open>messages\<close> and
  \<^verbatim>\<open>systemPrompt\<close>. A message of any other role leaves both as they are.\<close>

definition anthropicStep ::
  "InternalMessage list \<times> string option \<Rightarrow> Message \<Rightarrow> InternalMessage list \<times> string option" where
  "anthropicStep st msg =
     (case st of (msgs, systemPrompt) \<Rightarrow>
        (case msg_role msg of
           RSystem \<Rightarrow> (msgs, addSystem systemPrompt (extractTextContent (msg_content msg)))
         | RUser \<Rightarrow> (pushMessage User (userContent (msg_content msg)) msgs, systemPrompt)
         | RAssistant \<Rightarrow> (pushMessage Assistant (assistantContent (msg_content msg)) msgs, systemPrompt)
         | RTool \<Rightarrow> (msgs, systemPrompt)))"

definition anthropicTool :: "Tool \<Rightarrow> InternalTool" where
  "anthropicTool tool =
     \<lparr>name = tool_name tool,
      description = orEmptyString (tool_description tool),
      parameters = orEmptySchema (input_schema tool)\<rparr>"

definition anthropicToInternal :: "Request \<Rightarrow> InternalRequest" where
  "anthropicToInternal request =
     (let (msgs, systemPrompt) =
            foldl anthropicStep ([], systemOfRequest (req_system request)) (req_messages request);
          tls = map_option (map anthropicTool) (req_tools request)
      in buildRequest request msgs tls systemPrompt (mapModelName (req_model request)))"

subsection \<open>OpenAI to internal\<close>

text \<open>
  This path can throw: \<^verbatim>\<open>JSON.parse\<close> a \<^verbatim>\<open>SyntaxError\<close> on a string that is not JSON, and
  \<^verbatim>\<open>tool.function.name\<close> a \<^verbatim>\<open>TypeError\<close> on a tool definition without \<^verbatim>\<open>function\<close>.
  \<^verbatim>\<open>JSON.parse\<close> belongs to the language, not to this code: it is the parameter \<open>parse\<close>,
  with \<open>None\<close> where it throws.
\<close>

datatype error = SyntaxError | TypeError

definition toolCallBlock :: "(string \<Rightarrow> json option) \<Rightarrow> ToolCall \<Rightarrow> error + InternalContentBlock" where
  "toolCallBlock parse toolCall =
     (case parse (case arguments toolCall of Some a \<Rightarrow> if a \<noteq> [] then a else ''{}'' | None \<Rightarrow> ''{}'') of
        None \<Rightarrow> Inl SyntaxError
      | Some inp \<Rightarrow> Inr (ToolUseBlock (call_id toolCall) (call_name toolCall) inp))"

fun toolCallBlocks ::
  "(string \<Rightarrow> json option) \<Rightarrow> ToolCall list \<Rightarrow> error + InternalContentBlock list" where
  "toolCallBlocks parse [] = Inr []"
| "toolCallBlocks parse (toolCall # rest) =
     (case toolCallBlock parse toolCall of
        Inl e \<Rightarrow> Inl e
      | Inr b \<Rightarrow> (case toolCallBlocks parse rest of Inl e \<Rightarrow> Inl e | Inr bs \<Rightarrow> Inr (b # bs)))"

text \<open>\<^verbatim>\<open>if (msg.content)\<close>: a missing content and the empty string are falsy.\<close>

definition contentTruthy :: "Content \<Rightarrow> bool" where
  "contentTruthy c = (case c of CNull \<Rightarrow> False | CString t \<Rightarrow> t \<noteq> [] | CArray blocks \<Rightarrow> True)"

definition openaiAssistantText :: "Content \<Rightarrow> InternalContentBlock list" where
  "openaiAssistantText c =
     (if contentTruthy c
      then (let textContent = extractTextContent c
            in if textContent \<noteq> [] then parseThinkingFromText textContent else [])
      else [])"

definition openaiStep ::
  "(string \<Rightarrow> json option) \<Rightarrow> InternalMessage list \<times> string option \<Rightarrow> Message
     \<Rightarrow> error + InternalMessage list \<times> string option" where
  "openaiStep parse st msg =
     (case st of (msgs, systemPrompt) \<Rightarrow>
        (case msg_role msg of
           RSystem \<Rightarrow> Inr (msgs, addSystem systemPrompt (extractTextContent (msg_content msg)))
         | RUser \<Rightarrow>
             (let textContent = extractTextContent (msg_content msg)
              in Inr (pushMessage User (if textContent \<noteq> [] then [TextBlock textContent] else []) msgs,
                      systemPrompt))
         | RAssistant \<Rightarrow>
             (case (case tool_calls msg of Some calls \<Rightarrow> toolCallBlocks parse calls | None \<Rightarrow> Inr []) of
                Inl e \<Rightarrow> Inl e
              | Inr uses \<Rightarrow>
                  Inr (pushMessage Assistant (uses @ openaiAssistantText (msg_content msg)) msgs,
                       systemPrompt))
         | RTool \<Rightarrow>
             (case tool_call_id msg of
                Some i \<Rightarrow>
                  if i \<noteq> []
                  then Inr (msgs @ [\<lparr>role = User,
                                     content = [ToolResultBlock i (extractTextContent (msg_content msg))]\<rparr>],
                            systemPrompt)
                  else Inr (msgs, systemPrompt)
              | None \<Rightarrow> Inr (msgs, systemPrompt))))"

fun openaiLoop ::
  "(string \<Rightarrow> json option) \<Rightarrow> InternalMessage list \<times> string option \<Rightarrow> Message list
     \<Rightarrow> error + InternalMessage list \<times> string option" where
  "openaiLoop parse st [] = Inr st"
| "openaiLoop parse st (msg # msgs) =
     (case openaiStep parse st msg of Inl e \<Rightarrow> Inl e | Inr st' \<Rightarrow> openaiLoop parse st' msgs)"

fun openaiTools :: "Tool list \<Rightarrow> error + InternalTool list" where
  "openaiTools [] = Inr []"
| "openaiTools (tool # rest) =
     (case tool_function tool of
        None \<Rightarrow> Inl TypeError
      | Some f \<Rightarrow>
          (case openaiTools rest of
             Inl e \<Rightarrow> Inl e
           | Inr ts \<Rightarrow>
               Inr (\<lparr>name = Some (fn_name f),
                     description = orEmptyString (fn_description f),
                     parameters = orEmptySchema (fn_parameters f)\<rparr> # ts)))"

definition openaiToInternal :: "(string \<Rightarrow> json option) \<Rightarrow> Request \<Rightarrow> error + InternalRequest" where
  "openaiToInternal parse request =
     (case openaiLoop parse ([], None) (req_messages request) of
        Inl e \<Rightarrow> Inl e
      | Inr (msgs, systemPrompt) \<Rightarrow>
          (case (case req_tools request of
                   Some ts \<Rightarrow> map_sum id Some (openaiTools ts)
                 | None \<Rightarrow> Inr None) of
             Inl e \<Rightarrow> Inl e
           | Inr tls \<Rightarrow>
               Inr (buildRequest request msgs tls systemPrompt (mapModelName (req_model request)))))"

subsection \<open>Dispatch\<close>

definition toInternal :: "(string \<Rightarrow> json option) \<Rightarrow> Request \<Rightarrow> error + InternalRequest" where
  "toInternal parse request =
     (if isAnthropicFormat request then Inr (anthropicToInternal request)
      else openaiToInternal parse request)"

section \<open>Notions for stating the properties\<close>

text \<open>The ids of the \<^verbatim>\<open>tool_use\<close> blocks that the assistant turns of a sequence carry.\<close>

fun blockUseIds :: "InternalContentBlock list \<Rightarrow> string list" where
  "blockUseIds [] = []"
| "blockUseIds (b # bs) =
     (case b of ToolUseBlock i n inp \<Rightarrow> i # blockUseIds bs | _ \<Rightarrow> blockUseIds bs)"

definition toolUseIds :: "InternalMessage list \<Rightarrow> string list" where
  "toolUseIds msgs =
     concat (map (\<lambda>m. if role m = Assistant then blockUseIds (content m) else []) msgs)"

definition isToolResult :: "InternalContentBlock \<Rightarrow> bool" where
  "isToolResult b = (case b of ToolResultBlock i c \<Rightarrow> True | _ \<Rightarrow> False)"

text \<open>No \<^verbatim>\<open>tool_result\<close> block of the sequence is dangling: each references the id of a
  \<^verbatim>\<open>tool_use\<close> block in some assistant turn of the same sequence.\<close>

definition noDanglingResult :: "InternalMessage list \<Rightarrow> bool" where
  "noDanglingResult msgs =
     list_all (\<lambda>m. list_all (\<lambda>b. case b of
                                  ToolResultBlock i c \<Rightarrow> i \<in> set (toolUseIds msgs)
                                | _ \<Rightarrow> True) (content m)) msgs"

text \<open>\<^verbatim>\<open>tool_result\<close> blocks sit in user turns only, as both normalisers place them.\<close>

definition resultsInUserTurns :: "InternalMessage list \<Rightarrow> bool" where
  "resultsInUserTurns msgs =
     list_all (\<lambda>m. role m = User \<or> \<not> list_ex isToolResult (content m)) msgs"

text \<open>What \<open>encodeThinkingBlock\<close> returns for a non-empty signature, less the two line feeds at
  its end: the text that \<open>parseThinkingFromText\<close> cuts out and hands to
  \<open>decodeThinkingBlock\<close>.\<close>

definition envelope :: "string \<Rightarrow> string \<Rightarrow> string" where
  "envelope t sg =
     header @ escapeBackticks t @
     newline # ''[SIG='' @ sg @ '',CRC='' @ calculateCrc32 (escapeBackticks t) @ '']'' @ closing"

section \<open>Example inputs\<close>

text \<open>A stand-in for \<^verbatim>\<open>JSON.parse\<close> in the examples: it knows the text \<^verbatim>\<open>{}\<close> and throws on
  everything else.\<close>

definition parseEmptyObject :: "string \<Rightarrow> json option" where
  "parseEmptyObject t = (if t = ''{}'' then Some (JObj []) else None)"

definition exampleRequest :: "string \<Rightarrow> Message list \<Rightarrow> Request" where
  "exampleRequest m msgs =
     \<lparr>req_model = m, req_messages = msgs, req_system = None, req_tools = None,
      max_tokens = None, req_stream = None, req_temperature = None\<rparr>"

definition exampleMessage :: "Role \<Rightarrow> Content \<Rightarrow> Message" where
  "exampleMessage r c = \<lparr>msg_role = r, msg_content = c, tool_calls = None, tool_call_id = None\<rparr>"

lemmas example_defs = exampleRequest_def exampleMessage_def parseEmptyObject_def

lemmas normalise_defs =
  toInternal_def anthropicToInternal_def openaiToInternal_def buildRequest_def
  anthropicStep_def openaiStep_def pushMessage_def addSystem_def systemOfRequest_def
  userContent_def userBlock_def assistantContent_def assistantBlock_def signatureIfTruthy_def
  openaiAssistantText_def contentTruthy_def extractTextContent_def textsOf_def
  toolCallBlock_def orDefaultTokens_def isAnthropicFormat_def
  filterMessagesWithoutThinking_def secondPass_def secondPassMsg_def orphaned_def
  hasThinking_def isThinking_def setAdd_def map_filter_simps
  mapModelName_def modelMap_def objectPrototypeKeys_def toLowerCase_def toLowerChar_def
  startsWith_def

section \<open>What the normalisers return\<close>

lemma messages_buildRequest:
  "messages (buildRequest request msgs tls sp mapped)
     = filterMessagesWithoutThinking msgs (enableThinking mapped)"
  by (simp add: buildRequest_def)

lemma messages_anthropic:
  "messages (anthropicToInternal request)
     = filterMessagesWithoutThinking
         (fst (foldl anthropicStep ([], systemOfRequest (req_system request)) (req_messages request)))
         (enableThinking (mapModelName (req_model request)))"
  by (simp add: anthropicToInternal_def messages_buildRequest case_prod_beta)

lemma messages_openai:
  "openaiToInternal parse request = Inr out \<Longrightarrow>
     \<exists>st. openaiLoop parse ([], None) (req_messages request) = Inr st \<and>
          messages out = filterMessagesWithoutThinking (fst st)
                           (enableThinking (mapModelName (req_model request)))"
  by (auto simp: openaiToInternal_def messages_buildRequest split: sum.splits prod.splits)



section \<open>The workaround filter\<close>

lemma firstPass_kept:
  "fst (firstPass msgs ids) = filter (\<lambda>m. \<not> (role m = Assistant \<and> \<not> hasThinking m)) msgs"
  by (induction msgs arbitrary: ids) (simp_all add: case_prod_beta)

lemma set_setAdd: "set (setAdd x ids) = insert x (set ids)"
  by (auto simp: setAdd_def)

lemma set_addToolUseIds:
  "set (addToolUseIds blocks ids) = set ids \<union> {i. \<exists>n inp. ToolUseBlock i n inp \<in> set blocks}"
  by (induction blocks arbitrary: ids) (auto simp: set_setAdd split: InternalContentBlock.splits)

lemma firstPass_ids:
  "set (snd (firstPass msgs ids)) =
     set ids \<union> {i. \<exists>m\<in>set msgs. role m = Assistant \<and> \<not> hasThinking m \<and>
                       (\<exists>n inp. ToolUseBlock i n inp \<in> set (content m))}"
proof (induction msgs arbitrary: ids)
  case Nil
  show ?case by simp
next
  case (Cons a msgs)
  show ?case
    by (cases "role a = Assistant \<and> \<not> hasThinking a")
       (auto simp: Cons.IH set_addToolUseIds case_prod_beta)
qed

lemma secondPass_mem:
  "m \<in> set (secondPass ids msgs) \<longleftrightarrow> (\<exists>m0\<in>set msgs. secondPassMsg ids m0 = Some m)"
  by (induction msgs) (auto simp: secondPass_def map_filter_simps split: option.splits)

lemma secondPassMsg_assistant: "role m = Assistant \<Longrightarrow> secondPassMsg ids m = Some m"
  by (simp add: secondPassMsg_def)

lemma filter_enabled_eq:
  "filterMessagesWithoutThinking msgs True =
     (if snd (firstPass msgs []) \<noteq> []
      then secondPass (snd (firstPass msgs []))
             (filter (\<lambda>m. \<not> (role m = Assistant \<and> \<not> hasThinking m)) msgs)
      else filter (\<lambda>m. \<not> (role m = Assistant \<and> \<not> hasThinking m)) msgs)"
  using firstPass_kept [of msgs "[]"]
  by (simp add: filterMessagesWithoutThinking_def case_prod_beta)

text \<open>Where a message of the filtered sequence comes from.\<close>

lemma filter_enabled_mem:
  assumes "m \<in> set (filterMessagesWithoutThinking msgs True)"
  shows "\<exists>m0\<in>set msgs. \<not> (role m0 = Assistant \<and> \<not> hasThinking m0) \<and>
           (m = m0 \<or> (role m0 = User \<and> role m = User \<and> content m \<noteq> [] \<and>
              set (content m) \<subseteq> set (content m0)))"
proof -
  define ids where "ids = snd (firstPass msgs [])"
  from assms obtain m0 where m0: "m0 \<in> set msgs" "\<not> (role m0 = Assistant \<and> \<not> hasThinking m0)"
    and cases: "m = m0 \<or> secondPassMsg ids m0 = Some m"
    unfolding filter_enabled_eq ids_def [symmetric]
    by (auto simp: secondPass_mem split: if_splits)
  from cases have "m = m0 \<or> (role m0 = User \<and> role m = User \<and> content m \<noteq> [] \<and>
              set (content m) \<subseteq> set (content m0))"
    by (auto simp: secondPassMsg_def Let_def split: if_splits)
  with m0 show ?thesis by blast
qed

lemma filter_keeps_assistant:
  assumes "m \<in> set msgs" "role m = Assistant" "hasThinking m"
  shows "m \<in> set (filterMessagesWithoutThinking msgs True)"
  using assms by (auto simp: filter_enabled_eq secondPass_mem secondPassMsg_assistant)

lemma filter_nonempty:
  assumes "\<forall>m\<in>set msgs. content m \<noteq> []"
  shows "\<forall>m\<in>set (filterMessagesWithoutThinking msgs enable). content m \<noteq> []"
proof (cases enable)
  case False
  with assms show ?thesis by (simp add: filterMessagesWithoutThinking_def)
next
  case True
  show ?thesis
  proof
    fix m assume "m \<in> set (filterMessagesWithoutThinking msgs enable)"
    with True have "m \<in> set (filterMessagesWithoutThinking msgs True)" by simp
    from filter_enabled_mem [OF this] assms show "content m \<noteq> []" by auto
  qed
qed



lemma set_blockUseIds: "set (blockUseIds bs) = {i. \<exists>n inp. ToolUseBlock i n inp \<in> set bs}"
  by (induction bs) (auto split: InternalContentBlock.splits)

lemma set_toolUseIds:
  "set (toolUseIds msgs) =
     {i. \<exists>m\<in>set msgs. role m = Assistant \<and> (\<exists>n inp. ToolUseBlock i n inp \<in> set (content m))}"
  by (auto simp: toolUseIds_def set_blockUseIds split: if_splits)

lemma noDanglingResult_iff:
  "noDanglingResult msgs \<longleftrightarrow>
     (\<forall>m\<in>set msgs. \<forall>i c. ToolResultBlock i c \<in> set (content m) \<longrightarrow> i \<in> set (toolUseIds msgs))"
  by (auto simp: noDanglingResult_def list_all_iff split: InternalContentBlock.splits)

lemma resultsInUserTurns_iff:
  "resultsInUserTurns msgs \<longleftrightarrow>
     (\<forall>m\<in>set msgs. \<forall>i c. ToolResultBlock i c \<in> set (content m) \<longrightarrow> role m = User)"
  by (auto simp: resultsInUserTurns_def list_all_iff list_ex_iff isToolResult_def
           split: InternalContentBlock.splits)

text \<open>
  C4, as stated, fails: the filter takes out the \<^verbatim>\<open>tool_result\<close> blocks whose id it removed
  with an assistant turn, and no others. A result that was dangling before is dangling
  after, with reasoning enabled as well.
\<close>

theorem filter_leaves_dangling_counterexample:
  "filterMessagesWithoutThinking [\<lparr>role = User, content = [ToolResultBlock ''t2'' ''res'']\<rparr>] True
     = [\<lparr>role = User, content = [ToolResultBlock ''t2'' ''res'']\<rparr>]
   \<and> \<not> noDanglingResult [\<lparr>role = User, content = [ToolResultBlock ''t2'' ''res'']\<rparr>]"
  by (simp add: filterMessagesWithoutThinking_def noDanglingResult_def toolUseIds_def)

text \<open>
  C4 (amended): the filter creates no dangling \<^verbatim>\<open>tool_result\<close>. For every message sequence
  in which every \<^verbatim>\<open>tool_result\<close> block sits in a user turn and references a \<^verbatim>\<open>tool_use\<close> id
  of some assistant turn, every \<^verbatim>\<open>tool_result\<close> block of the filter's output references a
  \<^verbatim>\<open>tool_use\<close> id that appears in some assistant turn of the output, with reasoning enabled
  or not.
\<close>

theorem filter_preserves_no_dangling:
  assumes nd: "noDanglingResult msgs" and ut: "resultsInUserTurns msgs"
  shows "noDanglingResult (filterMessagesWithoutThinking msgs enable)"
proof (cases enable)
  case False
  with nd show ?thesis by (simp add: filterMessagesWithoutThinking_def)
next
  case True
  define ids where "ids = snd (firstPass msgs [])"
  define out where "out = filterMessagesWithoutThinking msgs True"
  have "\<forall>m\<in>set out. \<forall>i c. ToolResultBlock i c \<in> set (content m) \<longrightarrow> i \<in> set (toolUseIds out)"
  proof (intro ballI allI impI)
    fix m i c
    assume m: "m \<in> set out" and b: "ToolResultBlock i c \<in> set (content m)"
    from m obtain m0 where m0: "m0 \<in> set msgs"
      and cases: "(ids = [] \<and> m = m0) \<or> (ids \<noteq> [] \<and> secondPassMsg ids m0 = Some m)"
      unfolding out_def filter_enabled_eq ids_def [symmetric]
      by (auto simp: secondPass_mem split: if_splits)
    from cases b have b0: "ToolResultBlock i c \<in> set (content m0)"
      by (auto simp: secondPassMsg_def Let_def split: if_splits)
    with nd m0 have "i \<in> set (toolUseIds msgs)" by (auto simp: noDanglingResult_iff)
    then obtain ma n inp where ma: "ma \<in> set msgs" "role ma = Assistant"
      "ToolUseBlock i n inp \<in> set (content ma)" by (auto simp: set_toolUseIds)
    from ut m0 b0 have user: "role m0 = User" by (auto simp: resultsInUserTurns_iff)
    show "i \<in> set (toolUseIds out)"
    proof (cases "hasThinking ma")
      case True
      with ma have "ma \<in> set out" unfolding out_def by (intro filter_keeps_assistant)
      with ma show ?thesis by (auto simp: set_toolUseIds)
    next
      case False
      with ma have i: "i \<in> set ids" unfolding ids_def firstPass_ids by auto
      then have "ids \<noteq> []" by auto
      with cases have "secondPassMsg ids m0 = Some m" by simp
      with user have "content m = filter (\<lambda>b. \<not> orphaned ids b) (content m0)"
        by (auto simp: secondPassMsg_def Let_def split: if_splits)
      with b i have False by (auto simp: orphaned_def)
      then show ?thesis ..
    qed
  qed
  with True show ?thesis by (simp add: noDanglingResult_iff out_def)
qed

theorem filter_preserves_no_dangling_witness:
  "noDanglingResult
     [\<lparr>role = Assistant, content = [ToolUseBlock ''t1'' ''search'' (JObj [])]\<rparr>,
      \<lparr>role = User, content = [ToolResultBlock ''t1'' ''found'', TextBlock ''go on'']\<rparr>,
      \<lparr>role = Assistant, content = [ThinkingBlock ''hm'' (Some ''sg''), ToolUseBlock ''t2'' ''read'' (JObj [])]\<rparr>,
      \<lparr>role = User, content = [ToolResultBlock ''t2'' ''text'']\<rparr>]
   \<and> resultsInUserTurns
     [\<lparr>role = Assistant, content = [ToolUseBlock ''t1'' ''search'' (JObj [])]\<rparr>,
      \<lparr>role = User, content = [ToolResultBlock ''t1'' ''found'', TextBlock ''go on'']\<rparr>,
      \<lparr>role = Assistant, content = [ThinkingBlock ''hm'' (Some ''sg''), ToolUseBlock ''t2'' ''read'' (JObj [])]\<rparr>,
      \<lparr>role = User, content = [ToolResultBlock ''t2'' ''text'']\<rparr>]
   \<and> noDanglingResult (filterMessagesWithoutThinking
     [\<lparr>role = Assistant, content = [ToolUseBlock ''t1'' ''search'' (JObj [])]\<rparr>,
      \<lparr>role = User, content = [ToolResultBlock ''t1'' ''found'', TextBlock ''go on'']\<rparr>,
      \<lparr>role = Assistant, content = [ThinkingBlock ''hm'' (Some ''sg''), ToolUseBlock ''t2'' ''read'' (JObj [])]\<rparr>,
      \<lparr>role = User, content = [ToolResultBlock ''t2'' ''text'']\<rparr>] True)
   \<and> filterMessagesWithoutThinking
     [\<lparr>role = Assistant, content = [ToolUseBlock ''t1'' ''search'' (JObj [])]\<rparr>,
      \<lparr>role = User, content = [ToolResultBlock ''t1'' ''found'', TextBlock ''go on'']\<rparr>,
      \<lparr>role = Assistant, content = [ThinkingBlock ''hm'' (Some ''sg''), ToolUseBlock ''t2'' ''read'' (JObj [])]\<rparr>,
      \<lparr>role = User, content = [ToolResultBlock ''t2'' ''text'']\<rparr>] True
     = [\<lparr>role = User, content = [TextBlock ''go on'']\<rparr>,
        \<lparr>role = Assistant, content = [ThinkingBlock ''hm'' (Some ''sg''), ToolUseBlock ''t2'' ''read'' (JObj [])]\<rparr>,
        \<lparr>role = User, content = [ToolResultBlock ''t2'' ''text'']\<rparr>]"
proof -
  let ?msgs = "[\<lparr>role = Assistant, content = [ToolUseBlock ''t1'' ''search'' (JObj [])]\<rparr>,
      \<lparr>role = User, content = [ToolResultBlock ''t1'' ''found'', TextBlock ''go on'']\<rparr>,
      \<lparr>role = Assistant, content = [ThinkingBlock ''hm'' (Some ''sg''), ToolUseBlock ''t2'' ''read'' (JObj [])]\<rparr>,
      \<lparr>role = User, content = [ToolResultBlock ''t2'' ''text'']\<rparr>]"
  have nd: "noDanglingResult ?msgs" by (simp add: noDanglingResult_def toolUseIds_def)
  have ut: "resultsInUserTurns ?msgs" by (simp add: resultsInUserTurns_def isToolResult_def)
  have eq: "filterMessagesWithoutThinking ?msgs True
     = [\<lparr>role = User, content = [TextBlock ''go on'']\<rparr>,
        \<lparr>role = Assistant, content = [ThinkingBlock ''hm'' (Some ''sg''), ToolUseBlock ''t2'' ''read'' (JObj [])]\<rparr>,
        \<lparr>role = User, content = [ToolResultBlock ''t2'' ''text'']\<rparr>]"
    by (simp add: normalise_defs)
  from filter_preserves_no_dangling [OF nd ut, of True] nd ut eq show ?thesis by simp
qed

section \<open>Format detection\<close>

lemma blocksHaveTool_iff:
  "blocksHaveTool blocks \<longleftrightarrow>
     (\<exists>b\<in>set blocks. (\<exists>i n inp. b = BToolUse i n inp) \<or> (\<exists>i c. b = BToolResult i c))"
  by (induction blocks) (auto split: ContentBlock.splits)

lemma messagesHaveTool_iff:
  "messagesHaveTool msgs \<longleftrightarrow>
     (\<exists>m\<in>set msgs. \<exists>blocks. msg_content m = CArray blocks \<and> blocksHaveTool blocks)"
  by (induction msgs) (auto split: Content.splits)

text \<open>
  C5: a request is taken for the Anthropic format exactly when its \<^verbatim>\<open>system\<close> field is
  present (whatever its type), or its first tool definition has the key \<^verbatim>\<open>input_schema\<close>,
  or some message has array content with a block of type \<^verbatim>\<open>tool_use\<close> or \<^verbatim>\<open>tool_result\<close>;
  every other request is taken for the OpenAI format.
\<close>

theorem isAnthropicFormat_iff:
  "isAnthropicFormat request \<longleftrightarrow>
     req_system request \<noteq> None
     \<or> (\<exists>firstTool rest. req_tools request = Some (firstTool # rest) \<and> input_schema firstTool \<noteq> None)
     \<or> (\<exists>m\<in>set (req_messages request). \<exists>blocks. msg_content m = CArray blocks \<and>
           (\<exists>b\<in>set blocks. (\<exists>i n inp. b = BToolUse i n inp) \<or> (\<exists>i c. b = BToolResult i c)))"
  unfolding isAnthropicFormat_def messagesHaveTool_iff blocksHaveTool_iff
  by (auto split: option.splits list.splits)

theorem isAnthropicFormat_iff_witness:
  "isAnthropicFormat
     (exampleRequest ''m''
        [exampleMessage RUser (CArray [BText ''a'', BToolResult ''t1'' (CString ''ok'')])])
   \<and> \<not> isAnthropicFormat
     ((exampleRequest ''m'' [exampleMessage RUser (CArray [BText ''a'', BThinking ''t1'' None])])
      \<lparr>req_tools := Some [\<lparr>tool_name = None, tool_description = None, input_schema = None,
                            tool_function = Some \<lparr>fn_name = ''f'', fn_description = None,
                                                  fn_parameters = None\<rparr>\<rparr>]\<rparr>)"
  by (simp add: isAnthropicFormat_iff example_defs)

section \<open>Token limit\<close>

lemma maxTokens_buildRequest:
  "maxTokens (buildRequest request msgs tls sp mapped) = orDefaultTokens (max_tokens request)"
  by (simp add: buildRequest_def)

lemma maxTokens_anthropic:
  "maxTokens (anthropicToInternal request) = orDefaultTokens (max_tokens request)"
  by (simp add: anthropicToInternal_def maxTokens_buildRequest split: prod.splits)

lemma maxTokens_openai:
  "openaiToInternal parse request = Inr out \<Longrightarrow> maxTokens out = orDefaultTokens (max_tokens request)"
  by (auto simp: openaiToInternal_def maxTokens_buildRequest split: sum.splits prod.splits)

text \<open>
  C10: a request whose \<^verbatim>\<open>max_tokens\<close> is 0 gets \<^verbatim>\<open>maxTokens = 4096\<close> on the Anthropic path,
  on the OpenAI path and through the dispatch, whenever the path returns a request.
\<close>

theorem max_tokens_zero_default:
  "max_tokens request = Some 0 \<Longrightarrow>
     maxTokens (anthropicToInternal request) = 4096 \<and>
     (\<forall>out. openaiToInternal parse request = Inr out \<longrightarrow> maxTokens out = 4096) \<and>
     (\<forall>out. toInternal parse request = Inr out \<longrightarrow> maxTokens out = 4096)"
  by (auto simp: maxTokens_anthropic toInternal_def orDefaultTokens_def dest!: maxTokens_openai)

theorem max_tokens_zero_default_witness:
  "max_tokens ((exampleRequest ''claude-4-opus'' [exampleMessage RUser (CString ''hi'')])
                 \<lparr>max_tokens := Some 0\<rparr>) = Some 0
   \<and> maxTokens (anthropicToInternal
        ((exampleRequest ''claude-4-opus'' [exampleMessage RUser (CString ''hi'')])
           \<lparr>max_tokens := Some 0\<rparr>)) = 4096
   \<and> openaiToInternal parseEmptyObject
        ((exampleRequest ''claude-4-opus'' [exampleMessage RUser (CString ''hi'')])
           \<lparr>max_tokens := Some 0\<rparr>)
      = Inr \<lparr>messages = [\<lparr>role = User, content = [TextBlock ''hi'']\<rparr>], tools = None,
             model = Some ''claude-opus-4-20250514'', maxTokens = 4096, system = None,
             stream = False, temperature = None, maxThinkingTokens = None\<rparr>"
proof -
  let ?r = "(exampleRequest ''claude-4-opus'' [exampleMessage RUser (CString ''hi'')])
              \<lparr>max_tokens := Some 0\<rparr>"
  have z: "max_tokens ?r = Some 0" by (simp add: example_defs)
  have e: "\<exists>out. openaiToInternal parseEmptyObject ?r = Inr out"
    by (simp add: normalise_defs example_defs)
  then obtain out where out: "openaiToInternal parseEmptyObject ?r = Inr out" ..
  from max_tokens_zero_default [OF z, of parseEmptyObject] out
  have "maxTokens (anthropicToInternal ?r) = 4096" "maxTokens out = 4096" by simp_all
  moreover have "out = \<lparr>messages = [\<lparr>role = User, content = [TextBlock ''hi'']\<rparr>], tools = None,
             model = Some ''claude-opus-4-20250514'', maxTokens = maxTokens out, system = None,
             stream = False, temperature = None, maxThinkingTokens = None\<rparr>"
    using out by (auto simp: normalise_defs example_defs)
  ultimately show ?thesis using z out by simp
qed

section \<open>Non-empty content\<close>

lemma pushMessage_nonempty:
  "\<forall>m\<in>set msgs. content m \<noteq> [] \<Longrightarrow> \<forall>m\<in>set (pushMessage r c msgs). content m \<noteq> []"
  by (simp add: pushMessage_def)

lemma anthropicStep_nonempty:
  "\<forall>m\<in>set (fst st). content m \<noteq> [] \<Longrightarrow> \<forall>m\<in>set (fst (anthropicStep st msg)). content m \<noteq> []"
  by (cases st; cases "msg_role msg") (simp_all add: anthropicStep_def pushMessage_def)

lemma foldl_anthropicStep_nonempty:
  "\<forall>m\<in>set (fst st). content m \<noteq> [] \<Longrightarrow>
     \<forall>m\<in>set (fst (foldl anthropicStep st msgs)). content m \<noteq> []"
proof (induction msgs arbitrary: st)
  case Nil
  then show ?case by simp
next
  case (Cons a msgs)
  from Cons.IH [OF anthropicStep_nonempty [OF Cons.prems, of a]] show ?case by simp
qed

lemma openaiStep_nonempty:
  "openaiStep parse st msg = Inr st' \<Longrightarrow> \<forall>m\<in>set (fst st). content m \<noteq> [] \<Longrightarrow>
     \<forall>m\<in>set (fst st'). content m \<noteq> []"
  by (cases st; cases "msg_role msg")
     (auto simp: openaiStep_def pushMessage_def Let_def split: sum.splits option.splits if_splits)

lemma openaiLoop_nonempty:
  "openaiLoop parse st msgs = Inr st' \<Longrightarrow> \<forall>m\<in>set (fst st). content m \<noteq> [] \<Longrightarrow>
     \<forall>m\<in>set (fst st'). content m \<noteq> []"
proof (induction msgs arbitrary: st)
  case Nil
  then show ?case by simp
next
  case (Cons msg msgs)
  from Cons.prems(1) obtain st1 where s1: "openaiStep parse st msg = Inr st1"
    and l: "openaiLoop parse st1 msgs = Inr st'" by (auto split: sum.splits)
  from openaiStep_nonempty [OF s1 Cons.prems(2)] Cons.IH [OF l] show ?case by blast
qed

text \<open>
  C8: on either path, and through the dispatch, every message of the normalised request has
  non-empty content: a message whose content would be empty is not pushed, and the filter
  drops a user turn that it empties.
\<close>

theorem normalised_content_nonempty:
  "(\<forall>m\<in>set (messages (anthropicToInternal request)). content m \<noteq> []) \<and>
   (\<forall>out. openaiToInternal parse request = Inr out \<longrightarrow> (\<forall>m\<in>set (messages out). content m \<noteq> [])) \<and>
   (\<forall>out. toInternal parse request = Inr out \<longrightarrow> (\<forall>m\<in>set (messages out). content m \<noteq> []))"
proof -
  have a: "\<forall>m\<in>set (messages (anthropicToInternal request)). content m \<noteq> []"
    unfolding messages_anthropic
    by (rule filter_nonempty, rule foldl_anthropicStep_nonempty) simp
  have b: "\<forall>m\<in>set (messages out). content m \<noteq> []"
    if "openaiToInternal parse request = Inr out" for out
  proof -
    from messages_openai [OF that] obtain st
      where l: "openaiLoop parse ([], None) (req_messages request) = Inr st"
        and m: "messages out = filterMessagesWithoutThinking (fst st)
                           (enableThinking (mapModelName (req_model request)))" by blast
    have "\<forall>m\<in>set (fst st). content m \<noteq> []" by (rule openaiLoop_nonempty [OF l]) simp
    then show ?thesis unfolding m by (rule filter_nonempty)
  qed
  from a b show ?thesis by (auto simp: toInternal_def split: if_splits)
qed

theorem normalised_content_nonempty_witness:
  "messages (anthropicToInternal
      ((exampleRequest ''claude-4-opus''
          [exampleMessage RUser (CString []), exampleMessage RAssistant (CArray [BOther]),
           exampleMessage RUser (CString ''hi'')])
       \<lparr>req_system := Some (SysString ''be brief'')\<rparr>))
     = [\<lparr>role = User, content = [TextBlock ''hi'']\<rparr>]
   \<and> content \<lparr>role = User, content = [TextBlock ''hi'']\<rparr> \<noteq> []
   \<and> openaiToInternal parseEmptyObject
       (exampleRequest ''claude-4-opus''
          [exampleMessage RUser (CString []), exampleMessage RAssistant CNull,
           (exampleMessage RTool CNull)\<lparr>tool_call_id := Some ''t1''\<rparr>])
     = Inr \<lparr>messages = [\<lparr>role = User, content = [ToolResultBlock ''t1'' []]\<rparr>], tools = None,
            model = Some ''claude-opus-4-20250514'', maxTokens = 4096, system = None,
            stream = False, temperature = None, maxThinkingTokens = None\<rparr>
   \<and> content \<lparr>role = User, content = [ToolResultBlock ''t1'' []]\<rparr> \<noteq> []"
proof -
  let ?r = "(exampleRequest ''claude-4-opus''
          [exampleMessage RUser (CString []), exampleMessage RAssistant (CArray [BOther]),
           exampleMessage RUser (CString ''hi'')])
       \<lparr>req_system := Some (SysString ''be brief'')\<rparr>"
  let ?m = "\<lparr>role = User, content = [TextBlock ''hi'']\<rparr>"
  let ?r' = "exampleRequest ''claude-4-opus''
          [exampleMessage RUser (CString []), exampleMessage RAssistant CNull,
           (exampleMessage RTool CNull)\<lparr>tool_call_id := Some ''t1''\<rparr>]"
  let ?m' = "\<lparr>role = User, content = [ToolResultBlock ''t1'' []]\<rparr>"
  let ?out = "\<lparr>messages = [?m'], tools = None,
            model = Some ''claude-opus-4-20250514'', maxTokens = 4096, system = None,
            stream = False, temperature = None, maxThinkingTokens = None\<rparr>"
  have eq: "messages (anthropicToInternal ?r) = [?m]"
    by (simp add: normalise_defs example_defs)
  then have "?m \<in> set (messages (anthropicToInternal ?r))" by simp
  from normalised_content_nonempty [of ?r parseEmptyObject, THEN conjunct1, THEN bspec, OF this]
  have 1: "content ?m \<noteq> []" .
  have eq': "openaiToInternal parseEmptyObject ?r' = Inr ?out"
    by (simp add: normalise_defs example_defs)
  have "?m' \<in> set (messages ?out)" by simp
  with normalised_content_nonempty [of ?r' parseEmptyObject, THEN conjunct2, THEN conjunct1,
      THEN spec, THEN mp, OF eq']
  have 2: "content ?m' \<noteq> []" by blast
  from eq 1 eq' 2 show ?thesis by blast
qed

section \<open>Native thinking blocks\<close>

lemma anthropicStep_mono: "set (fst st) \<subseteq> set (fst (anthropicStep st msg))"
  by (cases st; cases "msg_role msg") (auto simp: anthropicStep_def pushMessage_def)

lemma foldl_anthropicStep_mono: "set (fst st) \<subseteq> set (fst (foldl anthropicStep st msgs))"
proof (induction msgs arbitrary: st)
  case Nil
  show ?case by simp
next
  case (Cons msg msgs)
  from anthropicStep_mono [of st msg] Cons.IH [of "anthropicStep st msg"] show ?case by auto
qed

lemma foldl_anthropicStep_assistant:
  assumes "msg \<in> set msgs" "msg_role msg = RAssistant" "assistantContent (msg_content msg) \<noteq> []"
  shows "\<lparr>role = Assistant, content = assistantContent (msg_content msg)\<rparr>
           \<in> set (fst (foldl anthropicStep st msgs))"
  using assms
proof (induction msgs arbitrary: st)
  case Nil
  then show ?case by simp
next
  case (Cons a msgs)
  show ?case
  proof (cases "msg = a")
    case True
    with Cons.prems have "\<lparr>role = Assistant, content = assistantContent (msg_content msg)\<rparr>
           \<in> set (fst (anthropicStep st a))"
      by (cases st) (simp add: anthropicStep_def pushMessage_def)
    with foldl_anthropicStep_mono [of "anthropicStep st a" msgs] show ?thesis by auto
  next
    case False
    with Cons.prems have "msg \<in> set msgs" by simp
    from Cons.IH [OF this Cons.prems(2,3)] show ?thesis by simp
  qed
qed

text \<open>
  C9: on the Anthropic path, an assistant message with array content that holds a native
  thinking block yields an internal assistant message, present in the result, whose content
  is the conversion of that array and holds a thinking block with the same text and the
  same signature; a signature that is absent or the empty string is absent in the result.
\<close>

theorem native_thinking_preserved:
  assumes "msg \<in> set (req_messages request)" and "msg_role msg = RAssistant"
    and "msg_content msg = CArray blocks" and "BThinking t sg \<in> set blocks"
  shows "\<exists>im\<in>set (messages (anthropicToInternal request)).
           role im = Assistant \<and> content im = concat (map assistantBlock blocks) \<and>
           ThinkingBlock t (signatureIfTruthy sg) \<in> set (content im) \<and>
           (\<forall>g. sg = Some g \<and> g \<noteq> [] \<longrightarrow> ThinkingBlock t (Some g) \<in> set (content im))"
proof -
  let ?c = "concat (map assistantBlock blocks)"
  let ?im = "\<lparr>role = Assistant, content = ?c\<rparr>"
  let ?msgs = "fst (foldl anthropicStep ([], systemOfRequest (req_system request)) (req_messages request))"
  from assms(3) have c: "assistantContent (msg_content msg) = ?c" by (simp add: assistantContent_def)
  from assms(4) have th: "ThinkingBlock t (signatureIfTruthy sg) \<in> set ?c"
    by (auto simp: assistantBlock_def intro!: bexI [of _ "BThinking t sg"])
  then have ne: "?c \<noteq> []" by (metis empty_iff list.set(1))
  from foldl_anthropicStep_assistant [OF assms(1,2), of "([], systemOfRequest (req_system request))"] c ne
  have mem: "?im \<in> set ?msgs" by simp
  have "isThinking (ThinkingBlock t (signatureIfTruthy sg))" by (simp add: isThinking_def)
  with th have ht: "hasThinking ?im" unfolding hasThinking_def list_ex_iff by (intro bexI) simp_all
  have "?im \<in> set (messages (anthropicToInternal request))"
  proof (cases "enableThinking (mapModelName (req_model request))")
    case True
    with filter_keeps_assistant [OF mem _ ht] show ?thesis by (simp add: messages_anthropic)
  next
    case False
    with mem show ?thesis by (simp add: messages_anthropic filterMessagesWithoutThinking_def)
  qed
  moreover have "\<forall>g. sg = Some g \<and> g \<noteq> [] \<longrightarrow> ThinkingBlock t (Some g) \<in> set ?c"
    using th by (auto simp: signatureIfTruthy_def)
  ultimately show ?thesis using th by (intro bexI [of _ ?im]) simp_all
qed

theorem native_thinking_preserved_witness:
  "\<exists>im\<in>set (messages (anthropicToInternal
        ((exampleRequest ''claude-4.5-opus-high-thinking''
           [exampleMessage RUser (CString ''hi''),
            exampleMessage RAssistant
              (CArray [BThinking ''because'' (Some ''abc''), BToolUse ''t1'' ''search'' (JObj [])])])
         \<lparr>req_system := Some (SysString ''be brief'')\<rparr>))).
     im = \<lparr>role = Assistant,
            content = [ThinkingBlock ''because'' (Some ''abc''), ToolUseBlock ''t1'' ''search'' (JObj [])]\<rparr>"
proof -
  let ?msg = "exampleMessage RAssistant
              (CArray [BThinking ''because'' (Some ''abc''), BToolUse ''t1'' ''search'' (JObj [])])"
  let ?r = "(exampleRequest ''claude-4.5-opus-high-thinking''
           [exampleMessage RUser (CString ''hi''), ?msg])
         \<lparr>req_system := Some (SysString ''be brief'')\<rparr>"
  have 1: "?msg \<in> set (req_messages ?r)" by (simp add: example_defs)
  have 2: "msg_role ?msg = RAssistant" by (simp add: example_defs)
  have 3: "msg_content ?msg = CArray [BThinking ''because'' (Some ''abc''), BToolUse ''t1'' ''search'' (JObj [])]"
    by (simp add: example_defs)
  have 4: "BThinking ''because'' (Some ''abc'')
             \<in> set [BThinking ''because'' (Some ''abc''), BToolUse ''t1'' ''search'' (JObj [])]" by simp
  from native_thinking_preserved [OF 1 2 3 4] obtain im
    where "im \<in> set (messages (anthropicToInternal ?r))" "role im = Assistant"
      "content im = concat (map assistantBlock
                      [BThinking ''because'' (Some ''abc''), BToolUse ''t1'' ''search'' (JObj [])])"
    by blast
  then show ?thesis
    by (intro bexI [of _ im]) (simp_all add: assistantBlock_def signatureIfTruthy_def)
qed

section \<open>Tool-call arguments\<close>

lemma toolCallBlock_Inl: "toolCallBlock parse toolCall = Inl e \<Longrightarrow> e = SyntaxError"
  by (auto simp: toolCallBlock_def split: option.splits)

lemma toolCallBlocks_Inl: "toolCallBlocks parse calls = Inl e \<Longrightarrow> e = SyntaxError"
  by (induction calls arbitrary: e) (auto split: sum.splits dest: toolCallBlock_Inl)

lemma toolCallBlocks_malformed:
  "toolCall \<in> set calls \<Longrightarrow> toolCallBlock parse toolCall = Inl SyntaxError \<Longrightarrow>
     toolCallBlocks parse calls = Inl SyntaxError"
  by (induction calls) (auto split: sum.splits dest: toolCallBlock_Inl toolCallBlocks_Inl)

lemma openaiStep_Inl: "openaiStep parse st msg = Inl e \<Longrightarrow> e = SyntaxError"
  by (cases st; cases "msg_role msg")
     (auto simp: openaiStep_def Let_def split: sum.splits option.splits if_splits dest: toolCallBlocks_Inl)

lemma openaiLoop_malformed:
  "msg \<in> set msgs \<Longrightarrow> \<forall>st. openaiStep parse st msg = Inl SyntaxError \<Longrightarrow>
     openaiLoop parse st msgs = Inl SyntaxError"
proof (induction msgs arbitrary: st)
  case Nil
  then show ?case by simp
next
  case (Cons a msgs)
  show ?case
  proof (cases "openaiStep parse st a")
    case (Inl e)
    with openaiStep_Inl [OF Inl] show ?thesis by simp
  next
    case (Inr st1)
    from Cons.prems(2) Inr have "msg \<noteq> a" by (cases st) auto
    with Cons.prems have "msg \<in> set msgs" by simp
    from Cons.IH [OF this Cons.prems(2)] Inr show ?thesis by simp
  qed
qed

lemma toolCallBlock_ok:
  assumes p: "parse ''{}'' = Some (JObj [])"
    and ok: "arguments c = None \<or> arguments c = Some [] \<or> (\<exists>a. arguments c = Some a \<and> parse a \<noteq> None)"
  shows "\<exists>j. toolCallBlock parse c = Inr (ToolUseBlock (call_id c) (call_name c) j) \<and>
              (arguments c = None \<or> arguments c = Some [] \<longrightarrow> j = JObj [])"
  using p ok by (cases "arguments c") (auto simp: toolCallBlock_def)

lemma toolCallBlocks_ok:
  assumes p: "parse ''{}'' = Some (JObj [])"
  shows "\<forall>c\<in>set calls. arguments c = None \<or> arguments c = Some [] \<or>
                          (\<exists>a. arguments c = Some a \<and> parse a \<noteq> None) \<Longrightarrow>
         \<exists>bs. toolCallBlocks parse calls = Inr bs \<and>
              (\<forall>c\<in>set calls. arguments c = None \<or> arguments c = Some [] \<longrightarrow>
                 ToolUseBlock (call_id c) (call_name c) (JObj []) \<in> set bs)"
proof (induction calls)
  case Nil
  show ?case by simp
next
  case (Cons c calls)
  from Cons.prems have "arguments c = None \<or> arguments c = Some [] \<or>
                          (\<exists>a. arguments c = Some a \<and> parse a \<noteq> None)" by simp
  from toolCallBlock_ok [OF p this] obtain j where
    j: "toolCallBlock parse c = Inr (ToolUseBlock (call_id c) (call_name c) j)"
       "arguments c = None \<or> arguments c = Some [] \<longrightarrow> j = JObj []" by blast
  from Cons.prems have "\<forall>c\<in>set calls. arguments c = None \<or> arguments c = Some [] \<or>
                          (\<exists>a. arguments c = Some a \<and> parse a \<noteq> None)" by simp
  from Cons.IH [OF this] obtain bs where
    bs: "toolCallBlocks parse calls = Inr bs"
        "\<forall>c\<in>set calls. arguments c = None \<or> arguments c = Some [] \<longrightarrow>
                 ToolUseBlock (call_id c) (call_name c) (JObj []) \<in> set bs" by blast
  from j bs show ?case by auto
qed

lemma toolCallBlocks_empty_arguments:
  "parse ''{}'' = Some (JObj []) \<Longrightarrow> \<forall>c\<in>set calls. arguments c = None \<or> arguments c = Some [] \<Longrightarrow>
     toolCallBlocks parse calls = Inr (map (\<lambda>c. ToolUseBlock (call_id c) (call_name c) (JObj [])) calls)"
  by (induction calls) (auto simp: toolCallBlock_def)

lemma openaiStep_mono: "openaiStep parse st msg = Inr st' \<Longrightarrow> set (fst st) \<subseteq> set (fst st')"
  by (cases st; cases "msg_role msg")
     (auto simp: openaiStep_def pushMessage_def Let_def split: sum.splits option.splits if_splits)

lemma openaiLoop_mono: "openaiLoop parse st msgs = Inr st' \<Longrightarrow> set (fst st) \<subseteq> set (fst st')"
proof (induction msgs arbitrary: st)
  case Nil
  then show ?case by simp
next
  case (Cons msg msgs)
  from Cons.prems obtain st1 where s1: "openaiStep parse st msg = Inr st1"
    and l: "openaiLoop parse st1 msgs = Inr st'" by (auto split: sum.splits)
  from openaiStep_mono [OF s1] Cons.IH [OF l] show ?case by blast
qed

text \<open>An assistant message whose tool calls all parse is pushed with their blocks in front.\<close>

lemma openaiStep_assistant:
  assumes "msg_role msg = RAssistant" "tool_calls msg = Some calls" "toolCallBlocks parse calls = Inr bs"
  shows "openaiStep parse (msgs, sp) msg
           = Inr (pushMessage Assistant (bs @ openaiAssistantText (msg_content msg)) msgs, sp)"
  using assms by (simp add: openaiStep_def)

lemma openaiStep_ok:
  assumes p: "parse ''{}'' = Some (JObj [])"
    and ok: "msg_role msg = RAssistant \<longrightarrow>
               (\<forall>calls. tool_calls msg = Some calls \<longrightarrow>
                  (\<forall>c\<in>set calls. arguments c = None \<or> arguments c = Some [] \<or>
                                  (\<exists>a. arguments c = Some a \<and> parse a \<noteq> None)))"
  shows "\<exists>st'. openaiStep parse st msg = Inr st' \<and>
           (msg_role msg = RAssistant \<longrightarrow>
              (\<forall>calls c. tool_calls msg = Some calls \<and> c \<in> set calls \<and>
                         (arguments c = None \<or> arguments c = Some []) \<longrightarrow>
                 (\<exists>im\<in>set (fst st'). role im = Assistant \<and>
                    ToolUseBlock (call_id c) (call_name c) (JObj []) \<in> set (content im))))"
proof (cases "msg_role msg")
  case RAssistant
  obtain msgs sp where st: "st = (msgs, sp)" by (cases st)
  show ?thesis
  proof (cases "tool_calls msg")
    case None
    with RAssistant st show ?thesis by (simp add: openaiStep_def)
  next
    case (Some calls)
    with ok RAssistant have "\<forall>c\<in>set calls. arguments c = None \<or> arguments c = Some [] \<or>
                                  (\<exists>a. arguments c = Some a \<and> parse a \<noteq> None)" by simp
    from toolCallBlocks_ok [OF p this] obtain bs where
      bs: "toolCallBlocks parse calls = Inr bs"
          "\<forall>c\<in>set calls. arguments c = None \<or> arguments c = Some [] \<longrightarrow>
                 ToolUseBlock (call_id c) (call_name c) (JObj []) \<in> set bs" by blast
    let ?im = "\<lparr>role = Assistant, content = bs @ openaiAssistantText (msg_content msg)\<rparr>"
    let ?st' = "(pushMessage Assistant (bs @ openaiAssistantText (msg_content msg)) msgs, sp)"
    from openaiStep_assistant [OF RAssistant Some bs(1)] st
    have step: "openaiStep parse st msg = Inr ?st'" by simp
    have "\<exists>im\<in>set (fst ?st'). role im = Assistant \<and>
            ToolUseBlock (call_id c) (call_name c) (JObj []) \<in> set (content im)"
      if c: "c \<in> set calls" "arguments c = None \<or> arguments c = Some []" for c
    proof -
      from bs(2) c have b: "ToolUseBlock (call_id c) (call_name c) (JObj []) \<in> set bs" by blast
      then have "bs \<noteq> []" by auto
      then have "?im \<in> set (fst ?st')" by (simp add: pushMessage_def)
      moreover from b have "ToolUseBlock (call_id c) (call_name c) (JObj []) \<in> set (content ?im)" by simp
      ultimately show ?thesis by (intro bexI [of _ ?im]) simp_all
    qed
    with step Some show ?thesis by auto
  qed
next
  case RUser
  then show ?thesis by (cases st) (simp add: openaiStep_def Let_def)
next
  case RSystem
  then show ?thesis by (cases st) (simp add: openaiStep_def)
next
  case RTool
  then show ?thesis by (cases st) (auto simp: openaiStep_def split: option.splits)
qed

lemma openaiLoop_ok:
  assumes p: "parse ''{}'' = Some (JObj [])"
  shows "\<forall>m\<in>set msgs. msg_role m = RAssistant \<longrightarrow>
               (\<forall>calls. tool_calls m = Some calls \<longrightarrow>
                  (\<forall>c\<in>set calls. arguments c = None \<or> arguments c = Some [] \<or>
                                  (\<exists>a. arguments c = Some a \<and> parse a \<noteq> None))) \<Longrightarrow>
         \<exists>st'. openaiLoop parse st msgs = Inr st' \<and>
           (\<forall>m\<in>set msgs. msg_role m = RAssistant \<longrightarrow>
              (\<forall>calls c. tool_calls m = Some calls \<and> c \<in> set calls \<and>
                         (arguments c = None \<or> arguments c = Some []) \<longrightarrow>
                 (\<exists>im\<in>set (fst st'). role im = Assistant \<and>
                    ToolUseBlock (call_id c) (call_name c) (JObj []) \<in> set (content im))))"
proof (induction msgs arbitrary: st)
  case Nil
  show ?case by simp
next
  case (Cons msg msgs)
  from Cons.prems have "msg_role msg = RAssistant \<longrightarrow>
               (\<forall>calls. tool_calls msg = Some calls \<longrightarrow>
                  (\<forall>c\<in>set calls. arguments c = None \<or> arguments c = Some [] \<or>
                                  (\<exists>a. arguments c = Some a \<and> parse a \<noteq> None)))" by simp
  from openaiStep_ok [OF p this, of st] obtain st1 where
    s1: "openaiStep parse st msg = Inr st1"
    and h1: "msg_role msg = RAssistant \<longrightarrow>
              (\<forall>calls c. tool_calls msg = Some calls \<and> c \<in> set calls \<and>
                         (arguments c = None \<or> arguments c = Some []) \<longrightarrow>
                 (\<exists>im\<in>set (fst st1). role im = Assistant \<and>
                    ToolUseBlock (call_id c) (call_name c) (JObj []) \<in> set (content im)))" by blast
  from Cons.prems have "\<forall>m\<in>set msgs. msg_role m = RAssistant \<longrightarrow>
               (\<forall>calls. tool_calls m = Some calls \<longrightarrow>
                  (\<forall>c\<in>set calls. arguments c = None \<or> arguments c = Some [] \<or>
                                  (\<exists>a. arguments c = Some a \<and> parse a \<noteq> None)))" by simp
  from Cons.IH [OF this, of st1] obtain st' where
    l: "openaiLoop parse st1 msgs = Inr st'"
    and h: "\<forall>m\<in>set msgs. msg_role m = RAssistant \<longrightarrow>
              (\<forall>calls c. tool_calls m = Some calls \<and> c \<in> set calls \<and>
                         (arguments c = None \<or> arguments c = Some []) \<longrightarrow>
                 (\<exists>im\<in>set (fst st'). role im = Assistant \<and>
                    ToolUseBlock (call_id c) (call_name c) (JObj []) \<in> set (content im)))" by blast
  from openaiLoop_mono [OF l] have mono: "set (fst st1) \<subseteq> set (fst st')" .
  from s1 l have "openaiLoop parse st (msg # msgs) = Inr st'" by simp
  moreover from h1 mono have "msg_role msg = RAssistant \<longrightarrow>
              (\<forall>calls c. tool_calls msg = Some calls \<and> c \<in> set calls \<and>
                         (arguments c = None \<or> arguments c = Some []) \<longrightarrow>
                 (\<exists>im\<in>set (fst st'). role im = Assistant \<and>
                    ToolUseBlock (call_id c) (call_name c) (JObj []) \<in> set (content im)))" by blast
  ultimately show ?case using h by auto
qed

lemma openaiTools_ok: "\<forall>t\<in>set ts. tool_function t \<noteq> None \<Longrightarrow> \<exists>tls. openaiTools ts = Inr tls"
  by (induction ts) auto

text \<open>
  C7: on the OpenAI path, an assistant message with a tool call whose arguments string is
  present, non-empty and rejected by \<^verbatim>\<open>JSON.parse\<close> makes the normalisation raise the
  \<^verbatim>\<open>SyntaxError\<close>. Absent or empty arguments raise nothing (\<^verbatim>\<open>JSON.parse("{}")\<close> is the empty
  object): the turn of the loop for an assistant message whose tool calls all have absent or
  empty arguments pushes one \<^verbatim>\<open>tool_use\<close> block per call, each with the empty object as input;
  and a request whose tool calls are absent, empty or accepted by \<^verbatim>\<open>JSON.parse\<close>, and whose
  tool definitions all have \<^verbatim>\<open>function\<close>, is normalised without an error, with an assistant
  turn that holds the block with the empty object for every call with absent or empty
  arguments (the turn is in the result unless the filter for reasoning removes it).
\<close>

theorem malformed_arguments_raise:
  "(msg \<in> set (req_messages request) \<and> msg_role msg = RAssistant \<and> tool_calls msg = Some calls \<and>
      toolCall \<in> set calls \<and> arguments toolCall = Some a \<and> a \<noteq> [] \<and> parse a = None
      \<longrightarrow> openaiToInternal parse request = Inl SyntaxError) \<and>
   (parse ''{}'' = Some (JObj []) \<and> msg_role msg' = RAssistant \<and> tool_calls msg' = Some calls' \<and>
      (\<forall>c\<in>set calls'. arguments c = None \<or> arguments c = Some [])
      \<longrightarrow> openaiStep parse (msgs, sp) msg'
            = Inr (pushMessage Assistant
                     (map (\<lambda>c. ToolUseBlock (call_id c) (call_name c) (JObj [])) calls'
                        @ openaiAssistantText (msg_content msg')) msgs, sp)) \<and>
   (parse ''{}'' = Some (JObj []) \<and>
      (\<forall>m\<in>set (req_messages request'). msg_role m = RAssistant \<longrightarrow>
         (\<forall>cs. tool_calls m = Some cs \<longrightarrow>
            (\<forall>c\<in>set cs. arguments c = None \<or> arguments c = Some [] \<or>
                          (\<exists>a. arguments c = Some a \<and> parse a \<noteq> None)))) \<and>
      (\<forall>ts. req_tools request' = Some ts \<longrightarrow> (\<forall>t\<in>set ts. tool_function t \<noteq> None))
      \<longrightarrow> (\<exists>out. openaiToInternal parse request' = Inr out \<and>
             (\<forall>m\<in>set (req_messages request'). msg_role m = RAssistant \<longrightarrow>
                (\<forall>cs c. tool_calls m = Some cs \<and> c \<in> set cs \<and>
                         (arguments c = None \<or> arguments c = Some []) \<longrightarrow>
                   (\<exists>im. role im = Assistant \<and>
                      ToolUseBlock (call_id c) (call_name c) (JObj []) \<in> set (content im) \<and>
                      (maxThinkingTokens out = None \<or> hasThinking im
                         \<longrightarrow> im \<in> set (messages out)))))))"
proof (intro conjI impI)
  assume h: "msg \<in> set (req_messages request) \<and> msg_role msg = RAssistant \<and> tool_calls msg = Some calls \<and>
      toolCall \<in> set calls \<and> arguments toolCall = Some a \<and> a \<noteq> [] \<and> parse a = None"
  then have "toolCallBlock parse toolCall = Inl SyntaxError" by (simp add: toolCallBlock_def)
  with h have "toolCallBlocks parse calls = Inl SyntaxError" by (intro toolCallBlocks_malformed) simp_all
  with h have "\<forall>st. openaiStep parse st msg = Inl SyntaxError"
    by (auto simp: openaiStep_def split: prod.splits)
  with h have "openaiLoop parse ([], None) (req_messages request) = Inl SyntaxError"
    by (intro openaiLoop_malformed) simp_all
  then show "openaiToInternal parse request = Inl SyntaxError" by (simp add: openaiToInternal_def)
next
  assume h: "parse ''{}'' = Some (JObj []) \<and> msg_role msg' = RAssistant \<and> tool_calls msg' = Some calls' \<and>
      (\<forall>c\<in>set calls'. arguments c = None \<or> arguments c = Some [])"
  then have "toolCallBlocks parse calls'
               = Inr (map (\<lambda>c. ToolUseBlock (call_id c) (call_name c) (JObj [])) calls')"
    by (intro toolCallBlocks_empty_arguments) simp_all
  with h show "openaiStep parse (msgs, sp) msg'
            = Inr (pushMessage Assistant
                     (map (\<lambda>c. ToolUseBlock (call_id c) (call_name c) (JObj [])) calls'
                        @ openaiAssistantText (msg_content msg')) msgs, sp)"
    by (intro openaiStep_assistant) simp_all
next
  let ?en = "enableThinking (mapModelName (req_model request'))"
  assume h: "parse ''{}'' = Some (JObj []) \<and>
      (\<forall>m\<in>set (req_messages request'). msg_role m = RAssistant \<longrightarrow>
         (\<forall>cs. tool_calls m = Some cs \<longrightarrow>
            (\<forall>c\<in>set cs. arguments c = None \<or> arguments c = Some [] \<or>
                          (\<exists>a. arguments c = Some a \<and> parse a \<noteq> None)))) \<and>
      (\<forall>ts. req_tools request' = Some ts \<longrightarrow> (\<forall>t\<in>set ts. tool_function t \<noteq> None))"
  then have p: "parse ''{}'' = Some (JObj [])" by simp
  from h have "\<forall>m\<in>set (req_messages request'). msg_role m = RAssistant \<longrightarrow>
         (\<forall>cs. tool_calls m = Some cs \<longrightarrow>
            (\<forall>c\<in>set cs. arguments c = None \<or> arguments c = Some [] \<or>
                          (\<exists>a. arguments c = Some a \<and> parse a \<noteq> None)))" by simp
  from openaiLoop_ok [OF p this, of "([], None)"] obtain st where
    l: "openaiLoop parse ([], None) (req_messages request') = Inr st"
    and blocks: "\<forall>m\<in>set (req_messages request'). msg_role m = RAssistant \<longrightarrow>
              (\<forall>calls c. tool_calls m = Some calls \<and> c \<in> set calls \<and>
                         (arguments c = None \<or> arguments c = Some []) \<longrightarrow>
                 (\<exists>im\<in>set (fst st). role im = Assistant \<and>
                    ToolUseBlock (call_id c) (call_name c) (JObj []) \<in> set (content im)))" by blast
  have "\<exists>tls. (case req_tools request' of Some ts \<Rightarrow> map_sum id Some (openaiTools ts) | None \<Rightarrow> Inr None)
               = Inr tls"
  proof (cases "req_tools request'")
    case None
    then show ?thesis by simp
  next
    case (Some ts)
    with h have "\<forall>t\<in>set ts. tool_function t \<noteq> None" by simp
    from openaiTools_ok [OF this] Some show ?thesis by auto
  qed
  then obtain tls where
    tls: "(case req_tools request' of Some ts \<Rightarrow> map_sum id Some (openaiTools ts) | None \<Rightarrow> Inr None)
            = Inr tls" ..
  obtain ms sp' where st: "st = (ms, sp')" by (cases st)
  let ?out = "buildRequest request' ms tls sp' (mapModelName (req_model request'))"
  from l tls st have out: "openaiToInternal parse request' = Inr ?out"
    by (simp add: openaiToInternal_def)
  have kept: "im \<in> set (messages ?out)"
    if "im \<in> set ms" "role im = Assistant" "maxThinkingTokens ?out = None \<or> hasThinking im" for im
  proof (cases ?en)
    case True
    with that(3) have "hasThinking im" by (simp add: buildRequest_def)
    from filter_keeps_assistant [OF that(1,2) this] True show ?thesis
      by (simp add: messages_buildRequest)
  next
    case False
    with that(1) show ?thesis
      by (simp add: messages_buildRequest filterMessagesWithoutThinking_def)
  qed
  have "\<forall>m\<in>set (req_messages request'). msg_role m = RAssistant \<longrightarrow>
                (\<forall>cs c. tool_calls m = Some cs \<and> c \<in> set cs \<and>
                         (arguments c = None \<or> arguments c = Some []) \<longrightarrow>
                   (\<exists>im. role im = Assistant \<and>
                      ToolUseBlock (call_id c) (call_name c) (JObj []) \<in> set (content im) \<and>
                      (maxThinkingTokens ?out = None \<or> hasThinking im
                         \<longrightarrow> im \<in> set (messages ?out))))"
  proof (intro ballI impI allI)
    fix m cs c
    assume m: "m \<in> set (req_messages request')" "msg_role m = RAssistant"
      and c: "tool_calls m = Some cs \<and> c \<in> set cs \<and> (arguments c = None \<or> arguments c = Some [])"
    with blocks st obtain im where im: "im \<in> set ms" "role im = Assistant"
      "ToolUseBlock (call_id c) (call_name c) (JObj []) \<in> set (content im)" by fastforce
    with kept [of im] show "\<exists>im. role im = Assistant \<and>
                      ToolUseBlock (call_id c) (call_name c) (JObj []) \<in> set (content im) \<and>
                      (maxThinkingTokens ?out = None \<or> hasThinking im
                         \<longrightarrow> im \<in> set (messages ?out))" by blast
  qed
  with out show "\<exists>out. openaiToInternal parse request' = Inr out \<and>
             (\<forall>m\<in>set (req_messages request'). msg_role m = RAssistant \<longrightarrow>
                (\<forall>cs c. tool_calls m = Some cs \<and> c \<in> set cs \<and>
                         (arguments c = None \<or> arguments c = Some []) \<longrightarrow>
                   (\<exists>im. role im = Assistant \<and>
                      ToolUseBlock (call_id c) (call_name c) (JObj []) \<in> set (content im) \<and>
                      (maxThinkingTokens out = None \<or> hasThinking im
                         \<longrightarrow> im \<in> set (messages out)))))" by blast
qed

theorem malformed_arguments_raise_witness:
  "openaiToInternal parseEmptyObject
     (exampleRequest ''claude-4-opus''
        [exampleMessage RUser (CString ''hi''),
         (exampleMessage RAssistant CNull)
           \<lparr>tool_calls := Some [\<lparr>call_id = ''t1'', call_name = ''search'', arguments = Some ''{q:''\<rparr>]\<rparr>])
     = Inl SyntaxError
   \<and> openaiStep parseEmptyObject ([], None)
        ((exampleMessage RAssistant CNull)
           \<lparr>tool_calls := Some [\<lparr>call_id = ''t1'', call_name = ''search'', arguments = None\<rparr>,
                                \<lparr>call_id = ''t2'', call_name = ''read'', arguments = Some []\<rparr>]\<rparr>)
     = Inr ([\<lparr>role = Assistant,
               content = [ToolUseBlock ''t1'' ''search'' (JObj []),
                          ToolUseBlock ''t2'' ''read'' (JObj [])]\<rparr>], None)
   \<and> openaiToInternal parseEmptyObject
        (exampleRequest ''claude-4-opus''
           [exampleMessage RUser (CString ''hi''),
            (exampleMessage RAssistant CNull)
              \<lparr>tool_calls := Some [\<lparr>call_id = ''t1'', call_name = ''search'', arguments = None\<rparr>,
                                   \<lparr>call_id = ''t2'', call_name = ''read'', arguments = Some []\<rparr>]\<rparr>])
     = Inr \<lparr>messages =
              [\<lparr>role = User, content = [TextBlock ''hi'']\<rparr>,
               \<lparr>role = Assistant,
                content = [ToolUseBlock ''t1'' ''search'' (JObj []),
                           ToolUseBlock ''t2'' ''read'' (JObj [])]\<rparr>],
            tools = None, model = Some ''claude-opus-4-20250514'', maxTokens = 4096,
            system = None, stream = False, temperature = None, maxThinkingTokens = None\<rparr>"
proof -
  let ?tc = "\<lparr>call_id = ''t1'', call_name = ''search'', arguments = Some ''{q:''\<rparr>"
  let ?msg = "(exampleMessage RAssistant CNull)\<lparr>tool_calls := Some [?tc]\<rparr>"
  let ?r = "exampleRequest ''claude-4-opus'' [exampleMessage RUser (CString ''hi''), ?msg]"
  let ?calls = "[\<lparr>call_id = ''t1'', call_name = ''search'', arguments = None\<rparr>,
                 \<lparr>call_id = ''t2'', call_name = ''read'', arguments = Some []\<rparr>]"
  let ?msg' = "(exampleMessage RAssistant CNull)\<lparr>tool_calls := Some ?calls\<rparr>"
  let ?r' = "exampleRequest ''claude-4-opus'' [exampleMessage RUser (CString ''hi''), ?msg']"
  let ?im = "\<lparr>role = Assistant,
               content = [ToolUseBlock ''t1'' ''search'' (JObj []),
                          ToolUseBlock ''t2'' ''read'' (JObj [])]\<rparr>"
  let ?out = "\<lparr>messages = [\<lparr>role = User, content = [TextBlock ''hi'']\<rparr>, ?im],
            tools = None, model = Some ''claude-opus-4-20250514'', maxTokens = 4096,
            system = None, stream = False, temperature = None, maxThinkingTokens = None\<rparr>"
  note inst = malformed_arguments_raise
    [of ?msg ?r "[?tc]" ?tc "''{q:''" parseEmptyObject ?msg' ?calls "[]" None ?r']
  have 1: "?msg \<in> set (req_messages ?r) \<and> msg_role ?msg = RAssistant \<and> tool_calls ?msg = Some [?tc] \<and>
      ?tc \<in> set [?tc] \<and> arguments ?tc = Some ''{q:'' \<and> ''{q:'' \<noteq> [] \<and> parseEmptyObject ''{q:'' = None"
    by (simp add: example_defs)
  from inst [THEN conjunct1] 1
  have a: "openaiToInternal parseEmptyObject ?r = Inl SyntaxError" by blast
  have 2: "parseEmptyObject ''{}'' = Some (JObj []) \<and> msg_role ?msg' = RAssistant \<and>
           tool_calls ?msg' = Some ?calls \<and>
           (\<forall>c\<in>set ?calls. arguments c = None \<or> arguments c = Some [])"
    by (simp add: example_defs)
  from inst [THEN conjunct2, THEN conjunct1] 2
  have "openaiStep parseEmptyObject ([], None) ?msg'
          = Inr (pushMessage Assistant
                   (map (\<lambda>c. ToolUseBlock (call_id c) (call_name c) (JObj [])) ?calls
                      @ openaiAssistantText (msg_content ?msg')) [], None)" by blast
  then have b: "openaiStep parseEmptyObject ([], None) ?msg' = Inr ([?im], None)"
    by (simp add: pushMessage_def openaiAssistantText_def contentTruthy_def example_defs)
  have 3: "parseEmptyObject ''{}'' = Some (JObj []) \<and>
      (\<forall>m\<in>set (req_messages ?r'). msg_role m = RAssistant \<longrightarrow>
         (\<forall>cs. tool_calls m = Some cs \<longrightarrow>
            (\<forall>c\<in>set cs. arguments c = None \<or> arguments c = Some [] \<or>
                          (\<exists>a. arguments c = Some a \<and> parseEmptyObject a \<noteq> None)))) \<and>
      (\<forall>ts. req_tools ?r' = Some ts \<longrightarrow> (\<forall>t\<in>set ts. tool_function t \<noteq> None))"
    by (simp add: example_defs)
  from inst [THEN conjunct2, THEN conjunct2] 3
  obtain out where out: "openaiToInternal parseEmptyObject ?r' = Inr out" by blast
  then have "out = ?out" by (simp add: normalise_defs example_defs)
  with out have c: "openaiToInternal parseEmptyObject ?r' = Inr ?out" by simp
  from a b c show ?thesis by blast
qed

section \<open>Model names\<close>

lemma includesStr_iff: "includesStr p s \<longleftrightarrow> (\<exists>u v. s = u @ p @ v)"
proof (induction s)
  case Nil
  show ?case by auto
next
  case (Cons c cs)
  have "startsWith p (c # cs) \<longleftrightarrow> (\<exists>v. c # cs = p @ v)"
    by (auto simp: startsWith_def) (metis append_take_drop_id)
  moreover have "(\<exists>u v. c # cs = u @ p @ v) \<longleftrightarrow> (\<exists>v. c # cs = p @ v) \<or> (\<exists>u v. cs = u @ p @ v)"
  proof
    assume "\<exists>u v. c # cs = u @ p @ v"
    then obtain u v where uv: "c # cs = u @ p @ v" by blast
    show "(\<exists>v. c # cs = p @ v) \<or> (\<exists>u v. cs = u @ p @ v)"
    proof (cases u)
      case Nil
      with uv show ?thesis by auto
    next
      case (Cons a u')
      with uv have "cs = u' @ p @ v" by simp
      then show ?thesis by blast
    qed
  next
    assume "(\<exists>v. c # cs = p @ v) \<or> (\<exists>u v. cs = u @ p @ v)"
    then show "\<exists>u v. c # cs = u @ p @ v"
    proof
      assume "\<exists>v. c # cs = p @ v"
      then obtain v where "c # cs = [] @ p @ v" by auto
      then show ?thesis by blast
    next
      assume "\<exists>u v. cs = u @ p @ v"
      then obtain u v where "c # cs = (c # u) @ p @ v" by auto
      then show ?thesis by blast
    qed
  qed
  ultimately show ?case using Cons.IH by simp
qed

lemma mapped_model_scenario:
  "toInternal parse (exampleRequest ''claude-4.5-opus-high-thinking'' [exampleMessage RUser (CString ''hi'')])
     = Inr \<lparr>messages = [\<lparr>role = User, content = [TextBlock ''hi'']\<rparr>], tools = None,
            model = Some ''claude-opus-4-5-20251101'', maxTokens = 4096, system = None,
            stream = False, temperature = None, maxThinkingTokens = Some 10000\<rparr>"
  by (simp add: normalise_defs example_defs)

lemma unmapped_model_passes_through:
  "map_of modelMap m = None \<Longrightarrow> m \<notin> set objectPrototypeKeys \<Longrightarrow>
     mapModelName m = \<lparr>mapped_model = Some m, enableThinking = (\<exists>u v. toLowerCase m = u @ ''thinking'' @ v)\<rparr>"
  by (simp add: mapModelName_def includesStr_iff)

text \<open>
  C6 at a failing input: \<^verbatim>\<open>constructor\<close> is not a key of the table, yet the request does
  not keep it as its model: \<^verbatim>\<open>modelMap["constructor"]\<close> is the inherited \<^verbatim>\<open>Object\<close> function,
  which is truthy, so \<^verbatim>\<open>mapModelName\<close> returns it and the model of the internal request is
  \<^verbatim>\<open>undefined\<close>. The two lemmas before it are the part of C6 that holds: the scenario, and
  the pass-through for every unmapped identifier that \<^verbatim>\<open>Object.prototype\<close> does not define.
\<close>

theorem inherited_model_name_lost:
  "map_of modelMap ''constructor'' = None \<and>
   toInternal parse (exampleRequest ''constructor'' [exampleMessage RUser (CString ''hi'')])
     = Inr \<lparr>messages = [\<lparr>role = User, content = [TextBlock ''hi'']\<rparr>], tools = None,
            model = None, maxTokens = 4096, system = None,
            stream = False, temperature = None, maxThinkingTokens = None\<rparr>"
  by (simp add: normalise_defs example_defs)

section \<open>Decoding what the encoder returns\<close>

lemma decodeRegex_Some_ends: "decodeRegex text = Some m \<Longrightarrow> \<exists>u. text = u @ closing"
  unfolding decodeRegex_def
  apply (drule lit_Some, clarify)
  apply (drule lazyAny_Some, clarify)
  apply (auto split: option.splits if_splits dest!: trailer_Some lit_Some)
  done

lemma encodeThinkingBlock_ends:
  "\<exists>u. encodeThinkingBlock t sg = u @ [newline, newline]"
  by (auto simp: encodeThinkingBlock_def Let_def split: option.splits)

lemma decode_encode_None: "decodeThinkingBlock (encodeThinkingBlock t sg) = None"
proof (cases "decodeRegex (encodeThinkingBlock t sg)")
  case None
  then show ?thesis by (simp add: decodeThinkingBlock_def)
next
  case (Some m)
  from decodeRegex_Some_ends [OF Some] obtain u where "encodeThinkingBlock t sg = u @ closing" ..
  then have "last (encodeThinkingBlock t sg) = backtick" by (simp add: closing_def fence_def)
  moreover from encodeThinkingBlock_ends [of t sg]
  have "last (encodeThinkingBlock t sg) = newline" by auto
  ultimately show ?thesis by (simp add: backtick_def newline_def)
qed

text \<open>
  C3: decoding the encoding of a reasoning text without a signature returns none.
\<close>

theorem decode_unsigned_is_none: "decodeThinkingBlock (encodeThinkingBlock t None) = None"
  by (rule decode_encode_None)

subsection \<open>Escaping\<close>

lemma escape_not_backtick_first: "escapeBackticks t \<noteq> backtick # r"
  by (cases t) (auto simp: backtick_def backslash_def)

lemma unescape_escape: "unescapeBackticks (escapeBackticks t) = t"
proof (induction t)
  case Nil
  show ?case by simp
next
  case (Cons c cs)
  show ?case
  proof (cases "c = backtick")
    case True
    with Cons.IH show ?thesis by simp
  next
    case False
    show ?thesis
    proof (cases "escapeBackticks cs")
      case Nil
      with Cons.IH False show ?thesis by simp
    next
      case (Cons b s)
      with escape_not_backtick_first [of cs s] have "b \<noteq> backtick" by auto
      with Cons Cons.IH False show ?thesis by simp
    qed
  qed
qed

lemma escape_before_backtick:
  "escapeBackticks t = u @ x # backtick # v \<Longrightarrow> x = backslash"
proof (induction t arbitrary: u)
  case Nil
  then show ?case by simp
next
  case (Cons c cs)
  show ?case
  proof (cases "c = backtick")
    case True
    with Cons.prems have e: "backslash # backtick # escapeBackticks cs = u @ x # backtick # v" by simp
    show ?thesis
    proof (cases u)
      case Nil
      with e show ?thesis by simp
    next
      case u1: (Cons a u')
      show ?thesis
      proof (cases u')
        case Nil
        with u1 e have "escapeBackticks cs = backtick # v" by simp
        with escape_not_backtick_first show ?thesis by blast
      next
        case (Cons b u'')
        with u1 e have "escapeBackticks cs = u'' @ x # backtick # v" by simp
        then show ?thesis by (rule Cons.IH)
      qed
    qed
  next
    case False
    with Cons.prems have e: "c # escapeBackticks cs = u @ x # backtick # v" by simp
    show ?thesis
    proof (cases u)
      case Nil
      with e have "escapeBackticks cs = backtick # v" by simp
      with escape_not_backtick_first show ?thesis by blast
    next
      case (Cons a u')
      with e have "escapeBackticks cs = u' @ x # backtick # v" by simp
      then show ?thesis by (rule Cons.IH)
    qed
  qed
qed

lemma escape_Nil_iff: "escapeBackticks t = [] \<longleftrightarrow> t = []"
  by (cases t) auto

lemma hd_escape: "t \<noteq> [] \<Longrightarrow> hd (escapeBackticks t) = (if hd t = backtick then backslash else hd t)"
  by (cases t) auto

lemma last_escape: "t \<noteq> [] \<Longrightarrow> last (escapeBackticks t) = last t"
  by (induction t) (auto simp: escape_Nil_iff)

subsection \<open>Prefixes and occurrences\<close>

lemma startsWith_Nil [simp]: "startsWith [] s"
  by (simp add: startsWith_def)

lemma startsWith_Cons_Cons [simp]: "startsWith (x # p) (c # s) \<longleftrightarrow> x = c \<and> startsWith p s"
  by (auto simp: startsWith_def)

lemma startsWith_Cons_Nil [simp]: "\<not> startsWith (x # p) []"
  by (simp add: startsWith_def)

lemma startsWith_iff: "startsWith p s \<longleftrightarrow> (\<exists>v. s = p @ v)"
  by (auto simp: startsWith_def) (metis append_take_drop_id)

lemma startsWith_drop_includes: "startsWith p (drop j s) \<Longrightarrow> includesStr p s"
proof -
  assume "startsWith p (drop j s)"
  then obtain v where "drop j s = p @ v" by (auto simp: startsWith_iff)
  then have "s = take j s @ p @ v" by (metis append_take_drop_id)
  then show ?thesis unfolding includesStr_iff by blast
qed

text \<open>A pattern that starts in a non-empty \<open>xs\<close> and whose later characters all differ from the
  first one behind \<open>xs\<close> lies within \<open>xs\<close>.\<close>

lemma startsWith_append_within:
  assumes sw: "startsWith p (xs @ y # ys)" and ne: "xs \<noteq> []" and y: "y \<notin> set (tl p)"
  shows "startsWith p xs"
proof (cases "length p \<le> length xs")
  case True
  with sw show ?thesis by (simp add: startsWith_def)
next
  case False
  from sw False have "p = xs @ take (length p - length xs) (y # ys)" by (simp add: startsWith_def)
  moreover from False have "take (length p - length xs) (y # ys) = y # take (length p - length xs - 1) ys"
    by (cases "length p - length xs") auto
  ultimately have p: "p = xs @ y # take (length p - length xs - 1) ys" by simp
  from ne obtain a xs' where xs: "xs = a # xs'" by (cases xs) auto
  have "tl p = xs' @ y # take (length p - length xs - 1) ys"
    by (subst p) (simp add: xs)
  then have "y \<in> set (tl p)" by simp
  with y show ?thesis by simp
qed

lemma startsWith_plain_escape:
  "\<forall>x\<in>set p. x \<noteq> backtick \<and> x \<noteq> backslash \<Longrightarrow> startsWith p (escapeBackticks s) \<Longrightarrow> startsWith p s"
proof (induction p arbitrary: s)
  case Nil
  show ?case by simp
next
  case (Cons x p)
  show ?case
  proof (cases s)
    case Nil
    with Cons.prems show ?thesis by simp
  next
    case s: (Cons c cs)
    show ?thesis
    proof (cases "c = backtick")
      case True
      with s Cons.prems show ?thesis by auto
    next
      case False
      with s Cons.prems have "x = c" "startsWith p (escapeBackticks cs)" by auto
      with Cons.IH [of cs] Cons.prems(1) s show ?thesis by simp
    qed
  qed
qed

lemma includesStr_plain_escape:
  assumes plain: "\<forall>x\<in>set p. x \<noteq> backtick \<and> x \<noteq> backslash" and ne: "p \<noteq> []"
  shows "includesStr p (escapeBackticks t) \<Longrightarrow> includesStr p t"
proof (induction t)
  case Nil
  then show ?case by simp
next
  case (Cons c cs)
  from ne obtain x p' where p: "p = x # p'" by (cases p) auto
  with plain have x: "x \<noteq> backtick" "x \<noteq> backslash" by auto
  show ?case
  proof (cases "c = backtick")
    case True
    with Cons.prems p x have "includesStr p (escapeBackticks cs)" by auto
    with Cons.IH show ?thesis by simp
  next
    case False
    with Cons.prems have "startsWith p (escapeBackticks (c # cs)) \<or> includesStr p (escapeBackticks cs)"
      by simp
    then show ?thesis
    proof
      assume "startsWith p (escapeBackticks (c # cs))"
      from startsWith_plain_escape [OF plain this] show ?thesis by simp
    next
      assume "includesStr p (escapeBackticks cs)"
      with Cons.IH show ?thesis by simp
    qed
  qed
qed

subsection \<open>The checksum is eight hexadecimal digits\<close>

lemma hexDigit_crcChar: "d < 16 \<Longrightarrow> crcChar (hexDigit d)"
proof -
  assume "d < 16"
  then have "d < length ''0123456789abcdef''" by simp
  then have "hexDigit d \<in> set ''0123456789abcdef''"
    unfolding hexDigit_def by (rule nth_mem)
  then show ?thesis by (auto simp: crcChar_def)
qed

lemma toString16_crcChar: "toString16 n \<noteq> [] \<and> (\<forall>c\<in>set (toString16 n). crcChar c)"
proof (induction n rule: toString16.induct)
  case (1 n)
  show ?case
  proof (cases "n < 16")
    case True
    then have "toString16 n = [hexDigit n]" by (simp add: toString16.simps [of n])
    with True show ?thesis by (simp add: hexDigit_crcChar)
  next
    case False
    then have e: "toString16 n = toString16 (n div 16) @ [hexDigit (n mod 16)]"
      by (simp add: toString16.simps [of n])
    from False 1 have "\<forall>c\<in>set (toString16 (n div 16)). crcChar c" by simp
    moreover have "crcChar (hexDigit (n mod 16))" by (rule hexDigit_crcChar) simp
    ultimately show ?thesis unfolding e by simp
  qed
qed

lemma calculateCrc32_crcChar:
  "calculateCrc32 x \<noteq> [] \<and> (\<forall>c\<in>set (calculateCrc32 x). crcChar c)"
proof -
  let ?h = "toString16 (unat (crc32 (utf8 x)))"
  from toString16_crcChar [of "unat (crc32 (utf8 x))"]
  have h: "?h \<noteq> []" "\<forall>c\<in>set ?h. crcChar c" by simp_all
  have "crcChar (CHR ''0'')" by (simp add: crcChar_def)
  with h show ?thesis by (auto simp: calculateCrc32_def padStart_def)
qed

subsection \<open>Trimming\<close>

lemma dropWhile_shorter: "xs \<noteq> [] \<Longrightarrow> P (hd xs) \<Longrightarrow> length (dropWhile P xs) < length xs"
  by (cases xs) (auto simp: le_imp_less_Suc length_dropWhile_le)

lemma trim_id:
  assumes "\<not> isWhiteSpace (hd s)" "\<not> isWhiteSpace (last s)"
  shows "trim s = s"
proof (cases s)
  case Nil
  then show ?thesis by (simp add: trim_def)
next
  case (Cons c cs)
  with assms(1) have 1: "dropWhile isWhiteSpace s = s" by simp
  from Cons have ne: "s \<noteq> []" by simp
  then have "hd (rev s) = last s" by (simp only: hd_rev)
  with assms(2) have "\<not> isWhiteSpace (hd (rev s))" by simp
  moreover from ne have "rev s \<noteq> []" by simp
  ultimately have "dropWhile isWhiteSpace (rev s) = rev s" by (cases "rev s") auto
  with 1 show ?thesis by (simp add: trim_def)
qed

lemma trimmed_ends:
  assumes t: "trim s = s" and ne: "s \<noteq> []"
  shows "\<not> isWhiteSpace (hd s) \<and> \<not> isWhiteSpace (last s)"
proof -
  let ?d = "dropWhile isWhiteSpace s"
  have l1: "length (trim s) \<le> length ?d"
    unfolding trim_def by (simp add: length_dropWhile_le order_trans [OF length_dropWhile_le])
  have a: "\<not> isWhiteSpace (hd s)"
  proof
    assume "isWhiteSpace (hd s)"
    from dropWhile_shorter [of s isWhiteSpace, OF ne this] l1 t show False by simp
  qed
  with ne have d: "?d = s" by (cases s) auto
  have "\<not> isWhiteSpace (last s)"
  proof
    assume "isWhiteSpace (last s)"
    moreover from ne have "hd (rev s) = last s" by (simp only: hd_rev)
    ultimately have "isWhiteSpace (hd (rev s))" by simp
    moreover from ne have "rev s \<noteq> []" by simp
    ultimately have "length (dropWhile isWhiteSpace (rev s)) < length (rev s)"
      using dropWhile_shorter [of "rev s" isWhiteSpace] by blast
    with d have "length (trim s) < length s" by (simp add: trim_def)
    with t show False by simp
  qed
  with a show ?thesis ..
qed

lemma trim_escape:
  assumes "trim t = t" "t \<noteq> []"
  shows "trim (escapeBackticks t) = escapeBackticks t"
proof -
  from trimmed_ends [OF assms] have "\<not> isWhiteSpace (hd t)" "\<not> isWhiteSpace (last t)" by simp_all
  moreover have "\<not> isWhiteSpace backslash" by (simp add: isWhiteSpace_def backslash_def)
  ultimately show ?thesis using assms(2)
    by (intro trim_id) (simp_all add: hd_escape last_escape)
qed

subsection \<open>How the matchers run on an encoding\<close>

lemma lit_append [simp]: "lit p (p @ s) k = k s"
  by (simp add: lit_def startsWith_def)

lemma lit_None: "\<not> startsWith p s \<Longrightarrow> lit p s k = None"
  by (simp add: lit_def)

lemma trailer_None: "\<not> startsWith (newline # ''[SIG='') s \<Longrightarrow> trailer s k = None"
  by (simp add: trailer_def lit_None)

lemma greedyStar_run:
  "\<forall>c\<in>set run. P c \<Longrightarrow> rest = [] \<or> \<not> P (hd rest) \<Longrightarrow> k (acc @ run) rest = Some r \<Longrightarrow>
     greedyStar P acc (run @ rest) k = Some r"
proof (induction run arbitrary: acc)
  case Nil
  then show ?case by (cases rest) auto
next
  case (Cons x run)
  from Cons.prems have "greedyStar P (acc @ [x]) (run @ rest) k = Some r"
    by (intro Cons.IH) simp_all
  with Cons.prems(1) show ?case by simp
qed

lemma greedyPlus_run:
  "run \<noteq> [] \<Longrightarrow> \<forall>c\<in>set run. P c \<Longrightarrow> rest = [] \<or> \<not> P (hd rest) \<Longrightarrow> k run rest = Some r \<Longrightarrow>
     greedyPlus P (run @ rest) k = Some r"
proof (cases run)
  case Nil
  assume "run \<noteq> []"
  with Nil show ?thesis by simp
next
  case (Cons x run')
  assume a: "\<forall>c\<in>set run. P c" "rest = [] \<or> \<not> P (hd rest)" "k run rest = Some r"
  with Cons have "greedyStar P [x] (run' @ rest) k = Some r"
    by (intro greedyStar_run) simp_all
  with Cons a(1) show ?thesis by simp
qed

lemma trailer_run:
  assumes sg: "sg \<noteq> []" "\<forall>c\<in>set sg. sigChar c"
    and crc: "crc \<noteq> []" "\<forall>c\<in>set crc. crcChar c"
    and k: "k sg crc rest = Some r"
  shows "trailer (newline # ''[SIG='' @ sg @ '',CRC='' @ crc @ '']'' @ rest) k = Some r"
proof -
  have 1: "greedyPlus crcChar (crc @ '']'' @ rest) (\<lambda>c s4. lit '']'' s4 (\<lambda>s5. k sg c s5)) = Some r"
    using crc k by (intro greedyPlus_run) (simp_all add: crcChar_def lit_def)
  have 2: "greedyPlus sigChar (sg @ '',CRC='' @ crc @ '']'' @ rest)
             (\<lambda>g s2. lit '',CRC='' s2 (\<lambda>s3.
                greedyPlus crcChar s3 (\<lambda>c s4. lit '']'' s4 (\<lambda>s5. k g c s5)))) = Some r"
    using sg 1 by (intro greedyPlus_run) (simp_all add: sigChar_def lit_def)
  have "trailer ((newline # ''[SIG='') @ sg @ '',CRC='' @ crc @ '']'' @ rest) k = Some r"
    unfolding trailer_def lit_append by (rule 2)
  then show ?thesis by simp
qed

lemma lazyAny_first:
  "\<forall>j<length pre. k (acc @ take j pre) (drop j pre @ rest) = None \<Longrightarrow>
     k (acc @ pre) rest = Some r \<Longrightarrow> lazyAny acc (pre @ rest) k = Some r"
proof (induction pre arbitrary: acc)
  case Nil
  then show ?case by (cases rest) auto
next
  case (Cons x pre)
  from Cons.prems(1) have 0: "k acc (x # pre @ rest) = None" by force
  have "\<forall>j<length pre. k ((acc @ [x]) @ take j pre) (drop j pre @ rest) = None"
  proof (intro allI impI)
    fix j assume "j < length pre"
    then have "Suc j < length (x # pre)" by simp
    with Cons.prems(1) have "k (acc @ take (Suc j) (x # pre)) (drop (Suc j) (x # pre) @ rest) = None"
      by blast
    then show "k ((acc @ [x]) @ take j pre) (drop j pre @ rest) = None" by simp
  qed
  moreover from Cons.prems(2) have "k ((acc @ [x]) @ pre) rest = Some r" by simp
  ultimately have "lazyAny (acc @ [x]) (pre @ rest) k = Some r" by (rule Cons.IH)
  with 0 show ?case by simp
qed

text \<open>Inside the escaped text neither the trailer nor the closing fence can start.\<close>

lemma no_trailer_inside:
  assumes "\<not> includesStr (newline # ''[SIG='') t" "j < length (escapeBackticks t)"
  shows "\<not> startsWith (newline # ''[SIG='') (drop j (escapeBackticks t) @ newline # w)"
proof
  let ?p = "newline # ''[SIG=''"
  assume "startsWith ?p (drop j (escapeBackticks t) @ newline # w)"
  moreover from assms(2) have "drop j (escapeBackticks t) \<noteq> []" by simp
  moreover have "newline \<notin> set (tl ?p)" by (simp add: newline_def)
  ultimately have "startsWith ?p (drop j (escapeBackticks t))" by (rule startsWith_append_within)
  then have "includesStr ?p (escapeBackticks t)" by (rule startsWith_drop_includes)
  then have "includesStr ?p t"
    by (rule includesStr_plain_escape [of ?p, rotated 2])
       (simp_all add: newline_def backtick_def backslash_def)
  with assms(1) show False by simp
qed

lemma no_closing_inside:
  assumes "j < length (escapeBackticks t)"
  shows "\<not> startsWith closing (drop j (escapeBackticks t) @ newline # w)"
proof
  assume "startsWith closing (drop j (escapeBackticks t) @ newline # w)"
  moreover from assms have "drop j (escapeBackticks t) \<noteq> []" by simp
  moreover have "newline \<notin> set (tl closing)" by (simp add: closing_def fence_def newline_def backtick_def)
  ultimately have "startsWith closing (drop j (escapeBackticks t))" by (rule startsWith_append_within)
  then obtain v where "drop j (escapeBackticks t) = closing @ v" by (auto simp: startsWith_iff)
  with append_take_drop_id [of j "escapeBackticks t"]
  have "escapeBackticks t = take j (escapeBackticks t) @ newline # backtick # (backtick # backtick # v)"
    by (simp add: closing_def fence_def)
  from escape_before_backtick [OF this] show False by (simp add: newline_def backslash_def)
qed

lemma lazyAny_first_Nil:
  "\<forall>j<length pre. k (take j pre) (drop j pre @ rest) = None \<Longrightarrow>
     k pre rest = Some r \<Longrightarrow> lazyAny [] (pre @ rest) k = Some r"
  using lazyAny_first [of pre k "[]" rest r] by simp

subsection \<open>The envelope\<close>

lemma encode_envelope:
  "sg \<noteq> [] \<Longrightarrow> encodeThinkingBlock t (Some sg) = envelope t sg @ [newline, newline]"
  by (simp add: encodeThinkingBlock_def envelope_def Let_def)

lemma decodeRegex_envelope:
  assumes t: "\<not> includesStr (newline # ''[SIG='') t"
    and sg: "sg \<noteq> []" "\<forall>c\<in>set sg. sigChar c"
  shows "decodeRegex (envelope t sg)
           = Some (escapeBackticks t, Some sg, Some (calculateCrc32 (escapeBackticks t)))"
proof -
  let ?E = "escapeBackticks t"
  let ?c = "calculateCrc32 ?E"
  let ?T = "newline # ''[SIG='' @ sg @ '',CRC='' @ ?c @ '']'' @ closing"
  let ?k = "\<lambda>c rest.
         case trailer rest (\<lambda>sg crc rest'.
                lit closing rest' (\<lambda>e. if e = [] then Some (c, Some sg, Some crc) else None)) of
           Some m \<Rightarrow> Some m
         | None \<Rightarrow> lit closing rest (\<lambda>e. if e = [] then Some (c, None, None) else None)"
  have inside: "\<forall>j<length ?E. ?k (take j ?E) (drop j ?E @ ?T) = None"
  proof (intro allI impI)
    fix j assume j: "j < length ?E"
    have "\<not> startsWith (newline # ''[SIG='') (drop j ?E @ ?T)"
      using no_trailer_inside [OF t j] by simp
    moreover have "\<not> startsWith closing (drop j ?E @ ?T)"
      using no_closing_inside [OF j] by simp
    ultimately show "?k (take j ?E) (drop j ?E @ ?T) = None"
      by (simp add: trailer_None lit_None)
  qed
  have "trailer (newline # ''[SIG='' @ sg @ '',CRC='' @ ?c @ '']'' @ closing)
          (\<lambda>sg crc rest'. lit closing rest' (\<lambda>e. if e = [] then Some (?E, Some sg, Some crc) else None))
        = Some (?E, Some sg, Some ?c)"
    using sg calculateCrc32_crcChar [of ?E]
    by (intro trailer_run) (simp_all add: lit_def startsWith_def)
  then have at: "?k ?E ?T = Some (?E, Some sg, Some ?c)" by simp
  from lazyAny_first_Nil [of ?E ?k ?T, OF inside at]
  have "lazyAny [] (?E @ ?T) ?k = Some (?E, Some sg, Some ?c)" .
  then show ?thesis by (simp add: decodeRegex_def envelope_def)
qed

lemma decode_envelope:
  assumes "t \<noteq> []" "trim t = t" "\<not> includesStr (newline # ''[SIG='') t"
    and "sg \<noteq> []" "\<forall>c\<in>set sg. sigChar c"
  shows "decodeThinkingBlock (envelope t sg) = Some (t, sg)"
proof -
  from assms(1) have "escapeBackticks t \<noteq> []" by (simp add: escape_Nil_iff)
  moreover from calculateCrc32_crcChar [of "escapeBackticks t"]
  have "calculateCrc32 (escapeBackticks t) \<noteq> []" by simp
  ultimately show ?thesis
    using assms(4) decodeRegex_envelope [OF assms(3-5)] trim_escape [OF assms(2,1)]
    by (simp add: decodeThinkingBlock_def unescape_escape)
qed

lemma blockRegexAt_envelope:
  assumes t: "\<not> includesStr (newline # ''[SIG='') t"
    and sg: "sg \<noteq> []" "\<forall>c\<in>set sg. sigChar c"
  shows "blockRegexAt (envelope t sg @ w) = Some w"
proof -
  let ?E = "escapeBackticks t"
  let ?c = "calculateCrc32 ?E"
  let ?T = "newline # ''[SIG='' @ sg @ '',CRC='' @ ?c @ '']'' @ closing @ w"
  let ?k = "\<lambda>(c::string) rest.
         case trailer rest (\<lambda>sg crc rest'. lit closing rest' Some) of
           Some e \<Rightarrow> Some e
         | None \<Rightarrow> lit closing rest Some"
  have inside: "\<forall>j<length ?E. ?k (take j ?E) (drop j ?E @ ?T) = None"
  proof (intro allI impI)
    fix j assume j: "j < length ?E"
    have "\<not> startsWith (newline # ''[SIG='') (drop j ?E @ ?T)"
      using no_trailer_inside [OF t j] by simp
    moreover have "\<not> startsWith closing (drop j ?E @ ?T)"
      using no_closing_inside [OF j] by simp
    ultimately show "?k (take j ?E) (drop j ?E @ ?T) = None"
      by (simp add: trailer_None lit_None)
  qed
  have "trailer (newline # ''[SIG='' @ sg @ '',CRC='' @ ?c @ '']'' @ (closing @ w))
          (\<lambda>sg crc rest'. lit closing rest' Some) = Some w"
    using sg calculateCrc32_crcChar [of ?E]
    by (intro trailer_run) simp_all
  then have at: "?k ?E ?T = Some w" by simp
  from lazyAny_first_Nil [of ?E ?k ?T, OF inside at]
  have "lazyAny [] (?E @ ?T) ?k = Some w" .
  then show ?thesis by (simp add: blockRegexAt_def envelope_def)
qed

lemma execBlockRegex_here:
  "blockRegexAt (m @ rest) = Some rest \<Longrightarrow> execBlockRegex skipped (m @ rest) = Some (skipped, m, rest)"
proof (cases "m @ rest")
  case Nil
  assume "blockRegexAt (m @ rest) = Some rest"
  with Nil show ?thesis by simp
next
  case (Cons c cs)
  assume a: "blockRegexAt (m @ rest) = Some rest"
  have "length (c # cs) - length rest = length m"
    by (simp only: Cons [symmetric]) simp
  then have "take (length (c # cs) - length rest) (c # cs) = m"
    by (simp only: Cons [symmetric]) simp
  moreover from a Cons have "blockRegexAt (c # cs) = Some rest" by simp
  ultimately have "execBlockRegex skipped (c # cs) = Some (skipped, m, rest)" by simp
  then show ?thesis by (simp only: Cons)
qed

lemma execBlockRegex_newlines: "execBlockRegex [] [newline, newline] = None"
  by (simp add: blockRegexAt_def lit_def startsWith_def header_def fence_def newline_def backtick_def)

lemma trim_newlines: "trim [newline, newline] = []"
  by (simp add: trim_def isWhiteSpace_def newline_def)

lemma parse_encoding:
  assumes "t \<noteq> []" "trim t = t" "\<not> includesStr (newline # ''[SIG='') t"
    and "sg \<noteq> []" "\<forall>c\<in>set sg. sigChar c"
  shows "parseThinkingFromText (encodeThinkingBlock t (Some sg)) = [ThinkingBlock t (Some sg)]"
proof -
  let ?n = "[newline, newline]"
  from blockRegexAt_envelope [OF assms(3-5), of ?n]
  have "execBlockRegex [] (envelope t sg @ ?n) = Some ([], envelope t sg, ?n)"
    by (rule execBlockRegex_here)
  then have "parseLoop (envelope t sg @ ?n) [] = parseLoop ?n [ThinkingBlock t (Some sg)]"
    using decode_envelope [OF assms]
    by (subst parseLoop.simps) (simp add: textBlockOf_def trim_def)
  also have "\<dots> = ([ThinkingBlock t (Some sg)], ?n)"
    by (subst parseLoop.simps) (simp only: execBlockRegex_newlines option.case)
  finally show ?thesis
    using assms(4) by (simp add: parseThinkingFromText_def encode_envelope trim_newlines textBlockOf_def)
qed

subsection \<open>The checksum and the conditions of the round trip, on examples\<close>

lemmas crc_defs = calculateCrc32_def crc32_def utf8_def utf8_char_def crc_byte_def crc_shift_def
  padStart_def toString16.simps hexDigit_def

lemmas codec_defs = decodeThinkingBlock_def decodeRegex_def trailer_def lit_def header_def closing_def
  fence_def envelope_def trim_def isWhiteSpace_def sigChar_def crcChar_def
  newline_def backtick_def backslash_def

text \<open>The check value of CRC-32.\<close>

lemma crc32_check_value: "calculateCrc32 ''123456789'' = ''cbf43926''"
  by (simp add: crc_defs)

lemma crc32_x: "calculateCrc32 ''x'' = ''8cdc1683''"
  by (simp add: crc_defs)

lemma crc32_space_x: "calculateCrc32 '' x'' = ''8a83cf53''"
  by (simp add: crc_defs)

lemma crc32_a: "calculateCrc32 ''a'' = ''e8b7be43''"
  by (simp add: crc_defs)

lemma crc32_fake: "calculateCrc32 ''a\<newline>[SIG=x,CRC='' = ''21a2605a''"
  by (simp add: crc_defs)

text \<open>A comma in the signature ends the capture early and the trailer does not match; the
  envelope is then matched without a trailer.\<close>

lemma signature_with_comma_lost: "decodeThinkingBlock (envelope ''x'' ''a,b'') = None"
  by (simp add: codec_defs crc32_x)

text \<open>White space at an end of the text is trimmed before the checksum is compared.\<close>

lemma leading_space_lost: "decodeThinkingBlock (envelope '' x'' ''abc'') = None"
  by (simp add: codec_defs crc32_space_x crc32_x)

text \<open>A trailer that starts inside the text is matched in place of the real one.\<close>

lemma trailer_inside_lost:
  "decodeThinkingBlock (envelope ''a\<newline>[SIG=x,CRC='' ''abc'') = None"
  by (simp add: codec_defs crc32_fake crc32_a)

text \<open>An empty signature is encoded without a trailer, and nothing is parsed back as a
  thinking block.\<close>

lemma empty_signature_lost:
  "decodeThinkingBlock (header @ escapeBackticks ''x'' @ closing) = None"
  by (simp add: codec_defs)

subsection \<open>The round trip\<close>

text \<open>
  Where the round trip holds: for a text with no white space at either end and no line feed
  followed by \<^verbatim>\<open>[SIG=\<close>, and a non-empty signature without comma and closing bracket, the
  envelope decodes to the text and the signature, and \<open>parseThinkingFromText\<close> finds the one
  thinking block in the encoding.
\<close>

lemma envelope_round_trip:
  assumes "t \<noteq> []" and "trim t = t" and "\<not> includesStr (newline # ''[SIG='') t"
    and "sg \<noteq> []" and "\<forall>c\<in>set sg. sigChar c"
  shows "encodeThinkingBlock t (Some sg) = envelope t sg @ [newline, newline] \<and>
         decodeThinkingBlock (envelope t sg) = Some (t, sg) \<and>
         parseThinkingFromText (encodeThinkingBlock t (Some sg)) = [ThinkingBlock t (Some sg)]"
  using encode_envelope [OF assms(4)] decode_envelope [OF assms] parse_encoding [OF assms]
  by simp

lemma crc32_x_newline: "calculateCrc32 ''x\<newline>'' = ''46ea081f''"
  by (simp add: crc_defs)

text \<open>A line feed at the end of the text is trimmed as well.\<close>

lemma trailing_newline_lost: "decodeThinkingBlock (envelope ''x\<newline>'' ''abc'') = None"
  by (simp add: codec_defs crc32_x_newline crc32_x)

lemma envelope_shape: "\<exists>u. envelope t sg = backtick # u @ [backtick]"
proof -
  have "envelope t sg = backtick # ([backtick, backtick] @ ''thinking'' @ [newline] @ ''[Thinking]'' @ [newline]
          @ escapeBackticks t @ newline # ''[SIG='' @ sg @ '',CRC='' @ calculateCrc32 (escapeBackticks t)
          @ '']'' @ [newline, backtick, backtick]) @ [backtick]"
    by (simp add: envelope_def header_def closing_def fence_def)
  then show ?thesis by blast
qed

lemma trim_encoding: "trim (envelope t sg @ [newline, newline]) = envelope t sg"
proof -
  from envelope_shape obtain u where u: "envelope t sg = backtick # u @ [backtick]" by blast
  have ws: "\<not> isWhiteSpace backtick" "isWhiteSpace newline"
    by (simp_all add: isWhiteSpace_def backtick_def newline_def)
  then show ?thesis unfolding u by (simp add: trim_def)
qed

lemma parse_undecodable_envelope:
  assumes t: "\<not> includesStr (newline # ''[SIG='') t"
    and sg: "sg \<noteq> []" "\<forall>c\<in>set sg. sigChar c"
    and d: "decodeThinkingBlock (envelope t sg) = None"
  shows "parseThinkingFromText (encodeThinkingBlock t (Some sg)) = [TextBlock (envelope t sg)]"
proof -
  let ?n = "[newline, newline]"
  from blockRegexAt_envelope [OF t sg, of ?n]
  have "execBlockRegex [] (envelope t sg @ ?n) = Some ([], envelope t sg, ?n)"
    by (rule execBlockRegex_here)
  then have "parseLoop (envelope t sg @ ?n) [] = parseLoop ?n []"
    using d by (subst parseLoop.simps) (simp add: textBlockOf_def trim_def)
  also have "\<dots> = ([], ?n)"
    by (subst parseLoop.simps) (simp only: execBlockRegex_newlines option.case)
  finally have l: "parseLoop (envelope t sg @ ?n) [] = ([], ?n)" .
  from envelope_shape obtain u where "envelope t sg = backtick # u @ [backtick]" by blast
  then have "envelope t sg \<noteq> []" by simp
  with l sg(1) show ?thesis
    by (simp add: parseThinkingFromText_def encode_envelope trim_newlines trim_encoding textBlockOf_def)
qed

text \<open>
  C2 at two failing inputs, a reasoning text with a space in front and one with a line feed
  at its end. \<open>encodeThinkingBlock\<close> writes the checksum of the escaped text as it is;
  \<open>decodeThinkingBlock\<close> trims the captured text and then recomputes the checksum, so the two
  differ and the decoder refuses the block that the encoder wrote: the envelope decodes to
  none, and \<open>parseThinkingFromText\<close> returns the encoding as a text block and no thinking
  block. On the encoding itself \<open>decodeThinkingBlock\<close> returns none as well, as it does for
  every input: its pattern is anchored at the closing fence and the encoding ends in two line
  feeds.
\<close>

theorem codec_drops_own_block:
  "decodeThinkingBlock (envelope '' x'' ''abc'') = None \<and>
   parseThinkingFromText (encodeThinkingBlock '' x'' (Some ''abc''))
     = [TextBlock (envelope '' x'' ''abc'')] \<and>
   decodeThinkingBlock (encodeThinkingBlock '' x'' (Some ''abc'')) = None \<and>
   decodeThinkingBlock (envelope ''x\<newline>'' ''abc'') = None \<and>
   parseThinkingFromText (encodeThinkingBlock ''x\<newline>'' (Some ''abc''))
     = [TextBlock (envelope ''x\<newline>'' ''abc'')]"
proof -
  have "parseThinkingFromText (encodeThinkingBlock '' x'' (Some ''abc''))
          = [TextBlock (envelope '' x'' ''abc'')]"
    by (rule parse_undecodable_envelope)
       (simp_all add: newline_def sigChar_def leading_space_lost)
  moreover have "parseThinkingFromText (encodeThinkingBlock ''x\<newline>'' (Some ''abc''))
          = [TextBlock (envelope ''x\<newline>'' ''abc'')]"
    by (rule parse_undecodable_envelope)
       (simp_all add: newline_def sigChar_def trailing_newline_lost)
  ultimately show ?thesis
    using leading_space_lost trailing_newline_lost decode_encode_None by simp
qed

section \<open>The filter on examples of all three kinds\<close>


end
